theory Spec2Isabelle
  imports Main "HOL-Library.AList"
begin

section \<open>The tracking primitive of the validator, as data_adapter.js uses it\<close>

text \<open>
  data_adapter.js builds on three libraries that are not part of it: the validator
  (\<^verbatim>\<open>createCache\<close>, \<^verbatim>\<open>getValue\<close>, \<^verbatim>\<open>consumeTag\<close>, \<^verbatim>\<open>tagFor\<close>,
  \<^verbatim>\<open>untrack\<close>), the run loop (\<^verbatim>\<open>backburner.on\<close>, \<^verbatim>\<open>backburner.off\<close>) and
  the arrays of the runtime. They are modelled here as far as data_adapter.js uses them. The
  hooks and callbacks of the host are taken to observe only: while a cache is evaluated
  they dirty no tag, change no array and do not call back into the adapter.

  JavaScript objects (records, records arrays) are compared by identity; an object is
  modelled by its address. A tag is what \<^verbatim>\<open>tagFor(obj, key)\<close> returns.
\<close>

type_synonym obj = nat

datatype tag = TagFor obj string

text \<open>
  The observed world: the contents of every records array, the revision at which each
  tag was last dirtied and the global revision counter. Revisions start at 1.
\<close>

record world =
  arrays :: "obj \<Rightarrow> obj list"
  revisions :: "tag \<Rightarrow> nat"
  REVISION :: nat

definition dirtyTag :: "tag \<Rightarrow> world \<Rightarrow> world" where
  "dirtyTag t w =
     w\<lparr>REVISION := Suc (REVISION w), revisions := (revisions w)(t := Suc (REVISION w))\<rparr>"

text \<open>
  A combined tag is the list of the tags consumed in a tracking frame; its value is the
  largest revision among them (1 for the constant tag, the empty combination).
\<close>

definition valueForTag :: "world \<Rightarrow> tag list \<Rightarrow> nat" where
  "valueForTag w ts = foldr (\<lambda>t m. max (revisions w t) m) ts 1"

definition validateTag :: "world \<Rightarrow> tag list \<Rightarrow> nat \<Rightarrow> bool" where
  "validateTag w ts snapshot = (valueForTag w ts \<le> snapshot)"

text \<open>
  A cache holds the combined tag and the snapshot of its last evaluation, nothing before
  the first one. The current tracker is the list of tags consumed so far in the open
  frame, or \<open>None\<close> outside every frame and inside \<^verbatim>\<open>untrack\<close>.
\<close>

type_synonym cache = "(tag list \<times> nat) option"

type_synonym tracker = "tag list option"

definition consumeTag :: "tag list \<Rightarrow> tracker \<Rightarrow> tracker" where
  "consumeTag ts tr = map_option (\<lambda>cur. cur @ ts) tr"

definition isValid :: "world \<Rightarrow> cache \<Rightarrow> bool" where
  "isValid w c = (case c of None \<Rightarrow> False | Some (tg, snapshot) \<Rightarrow> validateTag w tg snapshot)"

text \<open>
  \<^verbatim>\<open>getValue(cache)\<close>: a valid cache only consumes its tag in the enclosing frame; an
  invalid one runs its function in a fresh frame, stores the frame's combined tag with its
  value, and consumes that tag in the enclosing frame. The function is a state
  transformer over what it mutates.
\<close>

definition getValue ::
  "world \<Rightarrow> cache \<Rightarrow> (tracker \<Rightarrow> 's \<Rightarrow> 's \<times> tracker) \<Rightarrow> tracker \<Rightarrow> 's \<Rightarrow> cache \<times> 's \<times> tracker" where
  "getValue w c fn tr s =
     (if isValid w c then (c, s, consumeTag (case c of None \<Rightarrow> [] | Some (tg, _) \<Rightarrow> tg) tr)
      else (let (s', inner) = fn (Some []) s;
                tg = (case inner of None \<Rightarrow> [] | Some ts \<Rightarrow> ts)
            in (Some (tg, valueForTag w tg), s', consumeTag tg tr)))"

definition untrack :: "(tracker \<Rightarrow> 's \<Rightarrow> 's \<times> tracker) \<Rightarrow> tracker \<Rightarrow> 's \<Rightarrow> 's \<times> tracker" where
  "untrack cb tr s = (let (s', _) = cb None s in (s', tr))"

section \<open>RecordsWatcher\<close>

text \<open>
  \<^verbatim>\<open>wrapRecord\<close> builds the payload around the record through the host's hooks; the
  model keeps the \<^verbatim>\<open>object\<close> field and the tags the hooks consume while reading the
  record (\<open>reads\<close>, none with the default hooks).
\<close>

datatype wrapped = Wrapped (object: obj)

definition wrapRecord :: "(obj \<Rightarrow> tag list) \<Rightarrow> obj \<Rightarrow> tracker \<Rightarrow> wrapped \<times> tracker" where
  "wrapRecord reads record tr = (Wrapped record, consumeTag (reads record) tr)"

record recordCache =
  hasBeenAdded :: bool
  node :: cache

datatype report =
  RecordsAdded "wrapped list"
| RecordsUpdated "wrapped list"
| RecordsRemoved "wrapped list"

text \<open>
  The watcher's state: the map from records to their caches (in insertion order, as a
  JavaScript Map keeps it), the top-level cache, and the three lists shared by the
  closures of the constructor.
\<close>

record RecordsWatcher =
  recordCaches :: "(obj \<times> recordCache) list"
  recordArrayCache :: cache
  added :: "wrapped list"
  updated :: "wrapped list"
  removed :: "wrapped list"

definition recordCache_fn ::
  "(obj \<Rightarrow> tag list) \<Rightarrow> obj \<Rightarrow> tracker \<Rightarrow> bool \<times> wrapped list \<times> wrapped list
     \<Rightarrow> (bool \<times> wrapped list \<times> wrapped list) \<times> tracker" where
  "recordCache_fn reads record tr s =
     (case s of (hba, add, upd) \<Rightarrow>
        (let (wr, tr') = wrapRecord reads record tr
         in if \<not> hba then ((True, add @ [wr], upd), tr')
            else ((hba, add, upd @ [wr]), tr')))"

text \<open>The body of the iteration over the records array (lines 38 to 59).\<close>

definition visit ::
  "(obj \<Rightarrow> tag list) \<Rightarrow> world \<Rightarrow> obj \<Rightarrow> RecordsWatcher \<times> obj set \<times> tracker
     \<Rightarrow> RecordsWatcher \<times> obj set \<times> tracker" where
  "visit reads w record st =
     (case st of (rw, seen, tr) \<Rightarrow>
        (let rc = (case map_of (recordCaches rw) record of
                     None \<Rightarrow> \<lparr>hasBeenAdded = False, node = None\<rparr>
                   | Some rc \<Rightarrow> rc);
             (c', (hba', add', upd'), tr') =
                getValue w (node rc) (recordCache_fn reads record) tr
                  (hasBeenAdded rc, added rw, updated rw)
         in (rw\<lparr>recordCaches :=
                   AList.update record \<lparr>hasBeenAdded = hba', node = c'\<rparr> (recordCaches rw),
                 added := add', updated := upd'\<rparr>,
             insert record seen, tr')))"

text \<open>The callback of the removal pass (lines 64 to 69) and the pass itself.\<close>

definition sweep ::
  "(obj \<Rightarrow> tag list) \<Rightarrow> obj set \<Rightarrow> obj \<Rightarrow> RecordsWatcher \<times> tracker \<Rightarrow> RecordsWatcher \<times> tracker" where
  "sweep reads seen record st =
     (case st of (rw, tr) \<Rightarrow>
        if record \<notin> seen
        then (let (wr, tr') = wrapRecord reads record tr
              in (rw\<lparr>removed := removed rw @ [wr],
                     recordCaches := AList.delete record (recordCaches rw)\<rparr>, tr'))
        else (rw, tr))"

definition removalPass ::
  "(obj \<Rightarrow> tag list) \<Rightarrow> obj set \<Rightarrow> tracker \<Rightarrow> RecordsWatcher \<Rightarrow> RecordsWatcher \<times> tracker" where
  "removalPass reads seen tr rw =
     fold (\<lambda>record st. sweep reads seen record st) (map fst (recordCaches rw)) (rw, tr)"

text \<open>The three guarded calls at the end of the computation (lines 72 to 82).\<close>

definition dispatch :: "wrapped list \<Rightarrow> wrapped list \<Rightarrow> wrapped list \<Rightarrow> report list" where
  "dispatch add upd rem =
     (if length add > 0 then [RecordsAdded add] else []) @
     (if length upd > 0 then [RecordsUpdated upd] else []) @
     (if length rem > 0 then [RecordsRemoved rem] else [])"

text \<open>The function of the top-level cache (lines 28 to 83); it appends the calls it makes.\<close>

definition recordArrayCache_fn ::
  "(obj \<Rightarrow> tag list) \<Rightarrow> world \<Rightarrow> obj \<Rightarrow> tracker \<Rightarrow> RecordsWatcher \<times> report list
     \<Rightarrow> (RecordsWatcher \<times> report list) \<times> tracker" where
  "recordArrayCache_fn reads w records tr st =
     (case st of (rw, calls) \<Rightarrow>
        (let rw0 = rw\<lparr>added := [], updated := [], removed := []\<rparr>;
             tr0 = consumeTag [TagFor records ''[]''] tr;
             (rw1, seen, tr1) = fold (visit reads w) (arrays w records) (rw0, {}, tr0);
             (rw2, tr2) = untrack (removalPass reads seen) tr1 rw1
         in ((rw2, calls @ dispatch (added rw2) (updated rw2) (removed rw2)), tr2)))"

definition revalidate ::
  "(obj \<Rightarrow> tag list) \<Rightarrow> world \<Rightarrow> obj \<Rightarrow> RecordsWatcher \<Rightarrow> RecordsWatcher \<times> report list" where
  "revalidate reads w records rw =
     (let (c, (rw', calls), _) =
            getValue w (recordArrayCache rw) (recordArrayCache_fn reads w records) None (rw, [])
      in (rw'\<lparr>recordArrayCache := c\<rparr>, calls))"

definition newRecordsWatcher :: RecordsWatcher where
  "newRecordsWatcher =
     \<lparr>recordCaches = [], recordArrayCache = None, added = [], updated = [], removed = []\<rparr>"

section \<open>TypeWatcher\<close>

text \<open>
  The function of the cache (lines 95 to 108). The empty iteration over a native array
  consumes no tag; the \<^verbatim>\<open>[]\<close> tag of the array is consumed; \<open>onChange\<close> is the
  callback given to the constructor, a transformer of what it mutates that may consume
  tags of its own.
\<close>

record TypeWatcher =
  hasBeenAccessed :: bool
  cache :: cache

definition TypeWatcher_fn ::
  "obj \<Rightarrow> (tracker \<Rightarrow> 'l \<Rightarrow> 'l \<times> tracker) \<Rightarrow> tracker \<Rightarrow> bool \<times> 'l \<Rightarrow> (bool \<times> 'l) \<times> tracker" where
  "TypeWatcher_fn records onChange tr st =
     (case st of (accessed, l) \<Rightarrow>
        (let tr0 = consumeTag [TagFor records ''[]''] tr
         in if accessed = True
            then (let (l', tr1) = onChange tr0 l in ((accessed, l'), tr1))
            else ((True, l), tr0)))"

definition TypeWatcher_revalidate ::
  "world \<Rightarrow> obj \<Rightarrow> (tracker \<Rightarrow> 'l \<Rightarrow> 'l \<times> tracker) \<Rightarrow> TypeWatcher \<Rightarrow> 'l \<Rightarrow> TypeWatcher \<times> 'l" where
  "TypeWatcher_revalidate w records onChange tw l =
     (let (c, (accessed, l'), _) =
            getValue w (cache tw) (TypeWatcher_fn records onChange) None (hasBeenAccessed tw, l)
      in (\<lparr>hasBeenAccessed = accessed, cache = c\<rparr>, l'))"

definition newTypeWatcher :: TypeWatcher where
  "newTypeWatcher = \<lparr>hasBeenAccessed = False, cache = None\<rparr>"

section \<open>The records array and its mutations\<close>

text \<open>
  The host mutates a records array through the array's own operations, which notify the
  \<^verbatim>\<open>length\<close> and \<^verbatim>\<open>[]\<close> keys of the array; a change of a record's property
  notifies that key of the record.
\<close>

definition notifyPropertyChange :: "obj \<Rightarrow> string \<Rightarrow> world \<Rightarrow> world" where
  "notifyPropertyChange ob key w = dirtyTag (TagFor ob key) w"

definition pushObject :: "obj \<Rightarrow> obj \<Rightarrow> world \<Rightarrow> world" where
  "pushObject records record w =
     notifyPropertyChange records ''[]''
       (notifyPropertyChange records ''length''
          (w\<lparr>arrays := (arrays w)(records := arrays w records @ [record])\<rparr>))"

definition removeObject :: "obj \<Rightarrow> obj \<Rightarrow> world \<Rightarrow> world" where
  "removeObject records record w =
     (if record \<in> set (arrays w records)
      then notifyPropertyChange records ''[]''
             (notifyPropertyChange records ''length''
                (w\<lparr>arrays := (arrays w)(records := removeAll record (arrays w records))\<rparr>))
      else w)"

definition wf_world :: "world \<Rightarrow> bool" where
  "wf_world w = (1 \<le> REVISION w \<and> (\<forall>t. revisions w t \<le> REVISION w))"

definition initialWorld :: "(obj \<Rightarrow> obj list) \<Rightarrow> world" where
  "initialWorld arrs = \<lparr>arrays = arrs, revisions = (\<lambda>_. 1), REVISION = 1\<rparr>"

section \<open>One watcher over time\<close>

text \<open>
  What can happen to a watched array between and at revalidations: a record is pushed, a
  record is removed, a tag is dirtied, the watcher is revalidated.
\<close>

datatype action = Push obj | Remove obj | Notify tag | Revalidate

fun act :: "obj \<Rightarrow> action \<Rightarrow> world \<Rightarrow> world" where
  "act records (Push r) w = pushObject records r w"
| "act records (Remove r) w = removeObject records r w"
| "act records (Notify t) w = dirtyTag t w"
| "act records Revalidate w = w"

fun step ::
  "(obj \<Rightarrow> tag list) \<Rightarrow> obj \<Rightarrow> action \<Rightarrow> world \<times> RecordsWatcher \<times> report list
     \<Rightarrow> world \<times> RecordsWatcher \<times> report list" where
  "step reads records Revalidate (w, rw, calls) =
     (let (rw', new) = revalidate reads w records rw in (w, rw', calls @ new))"
| "step reads records a (w, rw, calls) = (act records a w, rw, calls)"

definition run ::
  "(obj \<Rightarrow> tag list) \<Rightarrow> obj \<Rightarrow> action list \<Rightarrow> world \<Rightarrow> world \<times> RecordsWatcher \<times> report list" where
  "run reads records as w = fold (step reads records) as (w, newRecordsWatcher, [])"

text \<open>The records in the array at some revalidation of a sequence of actions.\<close>

fun presentAtRevalidation :: "obj \<Rightarrow> action list \<Rightarrow> world \<Rightarrow> obj set" where
  "presentAtRevalidation records [] w = {}"
| "presentAtRevalidation records (a # as) w =
     (if a = Revalidate then set (arrays w records) else {}) \<union>
     presentAtRevalidation records as (act records a w)"

text \<open>What the calls of a log say about one record, in order.\<close>

datatype kind = IsAdded | IsUpdated | IsRemoved

fun kindsOf :: "obj \<Rightarrow> report \<Rightarrow> kind list" where
  "kindsOf r (RecordsAdded ws) = map (\<lambda>_. IsAdded) (filter (\<lambda>x. object x = r) ws)"
| "kindsOf r (RecordsUpdated ws) = map (\<lambda>_. IsUpdated) (filter (\<lambda>x. object x = r) ws)"
| "kindsOf r (RecordsRemoved ws) = map (\<lambda>_. IsRemoved) (filter (\<lambda>x. object x = r) ws)"

definition history :: "obj \<Rightarrow> report list \<Rightarrow> kind list" where
  "history r calls = concat (map (kindsOf r) calls)"

fun addedObjects :: "report list \<Rightarrow> obj list" where
  "addedObjects [] = []"
| "addedObjects (RecordsAdded ws # cs) = map object ws @ addedObjects cs"
| "addedObjects (_ # cs) = addedObjects cs"

fun updatedObjects :: "report list \<Rightarrow> obj list" where
  "updatedObjects [] = []"
| "updatedObjects (RecordsUpdated ws # cs) = map object ws @ updatedObjects cs"
| "updatedObjects (_ # cs) = updatedObjects cs"

fun removedObjects :: "report list \<Rightarrow> obj list" where
  "removedObjects [] = []"
| "removedObjects (RecordsRemoved ws # cs) = map object ws @ removedObjects cs"
| "removedObjects (_ # cs) = removedObjects cs"

text \<open>
  The life of a record in a log: added only while it is not tracked, updated and removed
  only while it is; the flag says whether it is tracked at the start.
\<close>

fun lifecycle :: "bool \<Rightarrow> kind list \<Rightarrow> bool" where
  "lifecycle tracked [] = True"
| "lifecycle tracked (IsAdded # ks) = (\<not> tracked \<and> lifecycle True ks)"
| "lifecycle tracked (IsUpdated # ks) = (tracked \<and> lifecycle True ks)"
| "lifecycle tracked (IsRemoved # ks) = (tracked \<and> lifecycle False ks)"

text \<open>The shape of the calls of one revalidation: which callback, and a non-empty list.\<close>

fun callback :: "report \<Rightarrow> nat" where
  "callback (RecordsAdded ws) = 0"
| "callback (RecordsUpdated ws) = 1"
| "callback (RecordsRemoved ws) = 2"

fun payload :: "report \<Rightarrow> wrapped list" where
  "payload (RecordsAdded ws) = ws"
| "payload (RecordsUpdated ws) = ws"
| "payload (RecordsRemoved ws) = ws"

section \<open>The DataAdapter\<close>

text \<open>
  The host's side: \<^verbatim>\<open>getRecords\<close> resolves a model name to its records array,
  \<open>recordReads\<close> are the tags the record hooks consume, \<^verbatim>\<open>getModelTypes\<close> lists the
  names of the detected model types.
\<close>

record hooks =
  getRecords :: "string \<Rightarrow> obj"
  recordReads :: "obj \<Rightarrow> tag list"
  getModelTypes :: "string list"

text \<open>
  A caller stands for the callbacks one call of \<^verbatim>\<open>watchRecords\<close> or
  \<^verbatim>\<open>watchModelTypes\<close> passed in; an event is one call of such a callback.
\<close>

type_synonym caller = nat

record wrappedType =
  name :: string
  count :: nat

datatype event =
  RecordsCall caller report
| TypesAdded caller "wrappedType list"
| TypesUpdated caller "wrappedType list"

text \<open>
  The release closures, each with the identity it got when it was created and the
  variables it captured: the one \<^verbatim>\<open>watchRecords\<close> builds (lines 335 to 341), the one
  \<^verbatim>\<open>observeModelType\<close> builds (lines 425 to 431) and the one \<^verbatim>\<open>watchModelTypes\<close>
  builds over its local list (lines 278 to 281).
\<close>

datatype releaseFn = ReleaseRecords nat obj | ReleaseType nat obj

datatype typesRelease = ReleaseTypes nat "releaseFn list"

record recordsWatcherEntry =
  watcher :: RecordsWatcher
  callbacks :: caller
  release :: releaseFn

record typeWatcherEntry =
  typeWatcher :: TypeWatcher
  typesUpdated :: caller
  modelName :: string
  typeRelease :: releaseFn

text \<open>
  The adapter: its three fields, the number of times \<^verbatim>\<open>flushWatchers\<close> stands among the
  run loop's listeners of \<^verbatim>\<open>end\<close>, the identity of the next closure, and the calls
  made to the callers so far.
\<close>

record DataAdapter =
  releaseMethods :: "typesRelease list"
  recordsWatchers :: "(obj \<times> recordsWatcherEntry) list"
  typeWatchers :: "(obj \<times> typeWatcherEntry) list"
  endListeners :: nat
  nextFn :: nat
  calls :: "event list"

definition init :: DataAdapter where
  "init = \<lparr>releaseMethods = [], recordsWatchers = [], typeWatchers = [],
           endListeners = 0, nextFn = 0, calls = []\<rparr>"

datatype error = TypeError

datatype 'a outcome = Returns 'a | Throws error 'a

text \<open>
  The run loop (a library outside this file): \<^verbatim>\<open>on\<close> appends the listener,
  \<^verbatim>\<open>off\<close> removes every occurrence of it and throws a TypeError when there was none.
\<close>

definition backburner_on :: "DataAdapter \<Rightarrow> DataAdapter" where
  "backburner_on s = s\<lparr>endListeners := Suc (endListeners s)\<rparr>"

definition backburner_off :: "DataAdapter \<Rightarrow> DataAdapter outcome" where
  "backburner_off s =
     (if endListeners s = 0 then Throws TypeError s else Returns (s\<lparr>endListeners := 0\<rparr>))"

definition watchRecords ::
  "hooks \<Rightarrow> world \<Rightarrow> string \<Rightarrow> caller \<Rightarrow> DataAdapter \<Rightarrow> DataAdapter \<times> releaseFn" where
  "watchRecords h w mn cb s =
     (let records = getRecords h mn
      in case map_of (recordsWatchers s) records of
           Some e \<Rightarrow> (s, release e)
         | None \<Rightarrow>
             (let s1 = (if length (recordsWatchers s) = 0 then backburner_on s else s);
                  rel = ReleaseRecords (nextFn s1) records;
                  (rw, reports) = revalidate (recordReads h) w records newRecordsWatcher;
                  e = \<lparr>watcher = rw, callbacks = cb, release = rel\<rparr>
              in (s1\<lparr>recordsWatchers := AList.update records e (recordsWatchers s1),
                     nextFn := Suc (nextFn s1),
                     calls := calls s1 @ map (RecordsCall cb) reports\<rparr>, rel)))"

text \<open>
  \<^verbatim>\<open>wrapModelType\<close> reads the length of the records array; \<open>onChange\<close> is the closure
  \<^verbatim>\<open>observeModelType\<close> gives to its TypeWatcher (lines 412 to 414).
\<close>

definition wrapModelType :: "hooks \<Rightarrow> world \<Rightarrow> string \<Rightarrow> tracker \<Rightarrow> wrappedType \<times> tracker" where
  "wrapModelType h w mn tr =
     (\<lparr>name = mn, count = length (arrays w (getRecords h mn))\<rparr>,
      consumeTag [TagFor (getRecords h mn) ''length''] tr)"

definition onChange ::
  "hooks \<Rightarrow> world \<Rightarrow> caller \<Rightarrow> string \<Rightarrow> tracker \<Rightarrow> event list \<Rightarrow> event list \<times> tracker" where
  "onChange h w cb mn tr evs =
     (let (wt, tr') = wrapModelType h w mn tr in (evs @ [TypesUpdated cb [wt]], tr'))"

definition observeModelType ::
  "hooks \<Rightarrow> world \<Rightarrow> string \<Rightarrow> caller \<Rightarrow> DataAdapter \<Rightarrow> DataAdapter \<times> releaseFn" where
  "observeModelType h w mn cb s =
     (let records = getRecords h mn
      in case map_of (typeWatchers s) records of
           Some e \<Rightarrow> (s, typeRelease e)
         | None \<Rightarrow>
             (let s1 = (if length (typeWatchers s) = 0 then backburner_on s else s);
                  rel = ReleaseType (nextFn s1) records;
                  (tw, evs) = TypeWatcher_revalidate w records (onChange h w cb mn) newTypeWatcher [];
                  e = \<lparr>typeWatcher = tw, typesUpdated = cb, modelName = mn, typeRelease = rel\<rparr>
              in (s1\<lparr>typeWatchers := AList.update records e (typeWatchers s1),
                     nextFn := Suc (nextFn s1),
                     calls := calls s1 @ evs\<rparr>, rel)))"

text \<open>Calling a release closure of a watcher.\<close>

fun callRelease :: "releaseFn \<Rightarrow> DataAdapter \<Rightarrow> DataAdapter outcome" where
  "callRelease (ReleaseRecords i records) s =
     (if length (recordsWatchers s) = 1
      then (case backburner_off s of
              Throws e s' \<Rightarrow> Throws e s'
            | Returns s' \<Rightarrow>
                Returns (s'\<lparr>recordsWatchers := AList.delete records (recordsWatchers s')\<rparr>))
      else Returns (s\<lparr>recordsWatchers := AList.delete records (recordsWatchers s)\<rparr>))"
| "callRelease (ReleaseType i records) s =
     (if length (typeWatchers s) = 1
      then (case backburner_off s of
              Throws e s' \<Rightarrow> Throws e s'
            | Returns s' \<Rightarrow>
                Returns (s'\<lparr>typeWatchers := AList.delete records (typeWatchers s')\<rparr>))
      else Returns (s\<lparr>typeWatchers := AList.delete records (typeWatchers s)\<rparr>))"

text \<open>Calling each function of a list in turn; a throw ends the loop.\<close>

fun callEach :: "releaseFn list \<Rightarrow> DataAdapter \<Rightarrow> DataAdapter outcome" where
  "callEach [] s = Returns s"
| "callEach (f # fs) s =
     (case callRelease f s of Throws e s' \<Rightarrow> Throws e s' | Returns s' \<Rightarrow> callEach fs s')"

fun watchEach ::
  "hooks \<Rightarrow> world \<Rightarrow> caller \<Rightarrow> string list \<Rightarrow> DataAdapter \<times> releaseFn list \<times> wrappedType list
     \<Rightarrow> DataAdapter \<times> releaseFn list \<times> wrappedType list" where
  "watchEach h w cb [] acc = acc"
| "watchEach h w cb (mn # mns) (s, rels, sent) =
     (let (wt, _) = wrapModelType h w mn None;
          (s', rel) = observeModelType h w mn cb s
      in watchEach h w cb mns (s', rels @ [rel], sent @ [wt]))"

definition watchModelTypes ::
  "hooks \<Rightarrow> world \<Rightarrow> caller \<Rightarrow> DataAdapter \<Rightarrow> DataAdapter \<times> typesRelease" where
  "watchModelTypes h w cb s =
     (let (s1, rels, typesToSend) = watchEach h w cb (getModelTypes h) (s, [], []);
          s2 = s1\<lparr>calls := calls s1 @ [TypesAdded cb typesToSend]\<rparr>;
          rel = ReleaseTypes (nextFn s2) rels
      in (s2\<lparr>releaseMethods := releaseMethods s2 @ [rel], nextFn := Suc (nextFn s2)\<rparr>, rel))"

fun callTypesRelease :: "typesRelease \<Rightarrow> DataAdapter \<Rightarrow> DataAdapter outcome" where
  "callTypesRelease (ReleaseTypes i rels) s =
     (case callEach rels s of
        Throws e s' \<Rightarrow> Throws e s'
      | Returns s' \<Rightarrow>
          Returns (s'\<lparr>releaseMethods := removeAll (ReleaseTypes i rels) (releaseMethods s')\<rparr>))"

text \<open>
  \<^verbatim>\<open>flushWatchers\<close>: every registered watcher is revalidated, the type watchers first.
\<close>

definition flushType :: "hooks \<Rightarrow> world \<Rightarrow> obj \<Rightarrow> DataAdapter \<Rightarrow> DataAdapter" where
  "flushType h w records s =
     (case map_of (typeWatchers s) records of
        None \<Rightarrow> s
      | Some e \<Rightarrow>
          (let (tw, evs) =
                 TypeWatcher_revalidate w records (onChange h w (typesUpdated e) (modelName e))
                   (typeWatcher e) []
           in s\<lparr>typeWatchers := AList.update records (e\<lparr>typeWatcher := tw\<rparr>) (typeWatchers s),
                calls := calls s @ evs\<rparr>))"

definition flushRecords :: "hooks \<Rightarrow> world \<Rightarrow> obj \<Rightarrow> DataAdapter \<Rightarrow> DataAdapter" where
  "flushRecords h w records s =
     (case map_of (recordsWatchers s) records of
        None \<Rightarrow> s
      | Some e \<Rightarrow>
          (let (rw, reports) = revalidate (recordReads h) w records (watcher e)
           in s\<lparr>recordsWatchers := AList.update records (e\<lparr>watcher := rw\<rparr>) (recordsWatchers s),
                calls := calls s @ map (RecordsCall (callbacks e)) reports\<rparr>))"

definition flushWatchers :: "hooks \<Rightarrow> world \<Rightarrow> DataAdapter \<Rightarrow> DataAdapter" where
  "flushWatchers h w s =
     (let s1 = fold (flushType h w) (map fst (typeWatchers s)) s
      in fold (flushRecords h w) (map fst (recordsWatchers s1)) s1)"

text \<open>The run loop ends a unit of work: every listener of \<^verbatim>\<open>end\<close> is called.\<close>

definition endEvent :: "hooks \<Rightarrow> world \<Rightarrow> DataAdapter \<Rightarrow> DataAdapter" where
  "endEvent h w s = (flushWatchers h w ^^ endListeners s) s"

text \<open>
  \<^verbatim>\<open>willDestroy\<close> (lines 362 to 369). A Map's forEach visits the entries still in the
  map; an array's forEach visits the indices below the length it started with that the
  array still has.
\<close>

fun releaseTypeWatchers :: "(obj \<times> typeWatcherEntry) list \<Rightarrow> DataAdapter \<Rightarrow> DataAdapter outcome" where
  "releaseTypeWatchers [] s = Returns s"
| "releaseTypeWatchers ((k, e) # es) s =
     (if map_of (typeWatchers s) k = None then releaseTypeWatchers es s
      else (case callRelease (typeRelease e) s of
              Throws err s' \<Rightarrow> Throws err s'
            | Returns s' \<Rightarrow> releaseTypeWatchers es s'))"

fun releaseRecordsWatchers ::
  "(obj \<times> recordsWatcherEntry) list \<Rightarrow> DataAdapter \<Rightarrow> DataAdapter outcome" where
  "releaseRecordsWatchers [] s = Returns s"
| "releaseRecordsWatchers ((k, e) # es) s =
     (if map_of (recordsWatchers s) k = None then releaseRecordsWatchers es s
      else (case callRelease (release e) s of
              Throws err s' \<Rightarrow> Throws err s'
            | Returns s' \<Rightarrow> releaseRecordsWatchers es s'))"

fun releaseMethodsFrom :: "nat \<Rightarrow> nat \<Rightarrow> DataAdapter \<Rightarrow> DataAdapter outcome" where
  "releaseMethodsFrom 0 k s = Returns s"
| "releaseMethodsFrom (Suc n) k s =
     (if k < length (releaseMethods s)
      then (case callTypesRelease (releaseMethods s ! k) s of
              Throws err s' \<Rightarrow> Throws err s'
            | Returns s' \<Rightarrow> releaseMethodsFrom n (Suc k) s')
      else releaseMethodsFrom n (Suc k) s)"

definition willDestroy :: "DataAdapter \<Rightarrow> DataAdapter outcome" where
  "willDestroy s =
     (case releaseTypeWatchers (typeWatchers s) s of
        Throws err s' \<Rightarrow> Throws err s'
      | Returns s1 \<Rightarrow>
          (case releaseRecordsWatchers (recordsWatchers s1) s1 of
             Throws err s' \<Rightarrow> Throws err s'
           | Returns s2 \<Rightarrow> releaseMethodsFrom (length (releaseMethods s2)) 0 s2))"

text \<open>The subscription to the signal, and whether any watcher is registered.\<close>

definition subscribed :: "DataAdapter \<Rightarrow> bool" where
  "subscribed s = (0 < endListeners s)"

definition watching :: "DataAdapter \<Rightarrow> bool" where
  "watching s = (0 < length (typeWatchers s) + length (recordsWatchers s))"

section \<open>Notions used in the proofs\<close>

text \<open>
  The tag of a cache, the tags of a frame, the iteration of one evaluation of the top-level
  cache from its first line, and the watcher that evaluation leaves.
\<close>

definition tagOf :: "cache \<Rightarrow> tag list" where
  "tagOf c = (case c of None \<Rightarrow> [] | Some (tg, _) \<Rightarrow> tg)"

definition frameTags :: "tracker \<Rightarrow> tag list" where
  "frameTags tr = (case tr of None \<Rightarrow> [] | Some ts \<Rightarrow> ts)"

definition iteration ::
  "(obj \<Rightarrow> tag list) \<Rightarrow> world \<Rightarrow> obj \<Rightarrow> RecordsWatcher \<Rightarrow> RecordsWatcher \<times> obj set \<times> tracker" where
  "iteration reads w records rw =
     fold (visit reads w) (arrays w records)
       (rw\<lparr>added := [], updated := [], removed := []\<rparr>, {}, Some [TagFor records ''[]''])"

definition rerun :: "(obj \<Rightarrow> tag list) \<Rightarrow> world \<Rightarrow> obj \<Rightarrow> RecordsWatcher \<Rightarrow> RecordsWatcher" where
  "rerun reads w records rw =
     (case iteration reads w records rw of (rw1, seen, tr1) \<Rightarrow>
        (fst (removalPass reads seen None rw1))
          \<lparr>recordArrayCache := Some (frameTags tr1, valueForTag w (frameTags tr1))\<rparr>)"

definition keys :: "RecordsWatcher \<Rightarrow> obj set" where
  "keys rw = fst ` set (recordCaches rw)"

text \<open>
  What holds of the records already visited in the iteration of one evaluation: each has a
  valid cache in the map, whose tags the frame has consumed; the lists hold visited
  records only, each once; the frame's tags are the array's tag and tags of those caches.
\<close>

definition seenInv :: "world \<Rightarrow> obj \<Rightarrow> RecordsWatcher \<times> obj set \<times> tracker \<Rightarrow> bool" where
  "seenInv w records st =
     (case st of (rw, seen, tr) \<Rightarrow>
        object ` set (added rw @ updated rw) \<subseteq> seen \<and>
        distinct (map object (added rw @ updated rw)) \<and>
        (\<forall>r \<in> seen. \<exists>rc. map_of (recordCaches rw) r = Some rc \<and> isValid w (node rc)) \<and>
        (\<exists>ts. tr = Some ts) \<and>
        TagFor records ''[]'' \<in> set (frameTags tr) \<and>
        (\<forall>t \<in> set (frameTags tr).
           t = TagFor records ''[]'' \<or>
           (\<exists>r \<in> seen. \<exists>rc. map_of (recordCaches rw) r = Some rc \<and> t \<in> set (tagOf (node rc)))))"

text \<open>
  What holds in the iteration when the map had the keys \<open>K\<close>, all with caches that have
  reported their record added: the lists split the visited records by \<open>K\<close>.
\<close>

definition passInv :: "obj set \<Rightarrow> RecordsWatcher \<times> obj set \<times> tracker \<Rightarrow> bool" where
  "passInv K st =
     (case st of (rw, seen, tr) \<Rightarrow>
        keys rw = K \<union> seen \<and>
        distinct (map fst (recordCaches rw)) \<and>
        (\<forall>p \<in> set (recordCaches rw). hasBeenAdded (snd p)) \<and>
        object ` set (added rw) = seen - K \<and>
        object ` set (updated rw) \<subseteq> seen \<inter> K \<and>
        removed rw = [])"

fun trackedAfter :: "bool \<Rightarrow> kind list \<Rightarrow> bool" where
  "trackedAfter tracked [] = tracked"
| "trackedAfter tracked (IsAdded # ks) = trackedAfter True ks"
| "trackedAfter tracked (IsUpdated # ks) = trackedAfter True ks"
| "trackedAfter tracked (IsRemoved # ks) = trackedAfter False ks"

text \<open>
  A watcher between evaluations: the keys of its map are distinct and every cache in it
  has reported its record added. What holds of a watcher, its world and the calls made so
  far along a sequence of actions.
\<close>

definition tidy :: "RecordsWatcher \<Rightarrow> bool" where
  "tidy rw =
     (distinct (map fst (recordCaches rw)) \<and> (\<forall>p \<in> set (recordCaches rw). hasBeenAdded (snd p)))"

definition cacheInv :: "obj \<Rightarrow> world \<Rightarrow> RecordsWatcher \<Rightarrow> bool" where
  "cacheInv records w rw =
     (case recordArrayCache rw of
        None \<Rightarrow> True
      | Some (tg, sn) \<Rightarrow>
          TagFor records ''[]'' \<in> set tg \<and> sn \<le> REVISION w \<and>
          (revisions w (TagFor records ''[]'') \<le> sn \<longrightarrow> keys rw = set (arrays w records)))"

definition traceInv :: "obj \<Rightarrow> world \<times> RecordsWatcher \<times> report list \<Rightarrow> bool" where
  "traceInv records st =
     (case st of (w, rw, log) \<Rightarrow>
        wf_world w \<and> tidy rw \<and> cacheInv records w rw \<and>
        keys rw \<subseteq> set (addedObjects log) \<and>
        (\<forall>r. lifecycle False (history r log) \<and>
             trackedAfter False (history r log) = (r \<in> keys rw)))"

text \<open>Hooks that read the title of a record, and a world whose arrays are empty.\<close>

definition titleOf :: "obj \<Rightarrow> tag list" where
  "titleOf r = [TagFor r ''title'']"

definition noRecords :: world where
  "noRecords = initialWorld (\<lambda>_. [])"

text \<open>
  What a call left behind and whether it returned; the commands a host can give an adapter
  and the world, a throw being caught by the host; the registries hold each array once.
\<close>

fun stateOf :: "'a outcome \<Rightarrow> 'a" where
  "stateOf (Returns s) = s"
| "stateOf (Throws e s) = s"

fun returned :: "'a outcome \<Rightarrow> bool" where
  "returned (Returns s) = True"
| "returned (Throws e s) = False"

datatype command =
  WatchRecords string caller
| WatchModelTypes caller
| CallRelease releaseFn
| CallTypesRelease typesRelease
| EndOfRunLoop
| WillDestroy
| Mutate obj action

fun exec :: "hooks \<Rightarrow> command \<Rightarrow> world \<times> DataAdapter \<Rightarrow> world \<times> DataAdapter" where
  "exec h (WatchRecords mn cb) (w, s) = (w, fst (watchRecords h w mn cb s))"
| "exec h (WatchModelTypes cb) (w, s) = (w, fst (watchModelTypes h w cb s))"
| "exec h (CallRelease f) (w, s) = (w, stateOf (callRelease f s))"
| "exec h (CallTypesRelease f) (w, s) = (w, stateOf (callTypesRelease f s))"
| "exec h EndOfRunLoop (w, s) = (w, endEvent h w s)"
| "exec h WillDestroy (w, s) = (w, stateOf (willDestroy s))"
| "exec h (Mutate c a) (w, s) = (act c a w, s)"

definition regInv :: "DataAdapter \<Rightarrow> bool" where
  "regInv s = (distinct (map fst (recordsWatchers s)) \<and> distinct (map fst (typeWatchers s)))"

text \<open>Example hooks and worlds for the concrete runs.\<close>

definition postHooks :: hooks where
  "postHooks = \<lparr>getRecords = (\<lambda>mn. if mn = ''post'' then 10 else 11),
                recordReads = titleOf, getModelTypes = [''post'']\<rparr>"

definition noTypeHooks :: hooks where
  "noTypeHooks = \<lparr>getRecords = (\<lambda>mn. if mn = ''post'' then 10 else 11),
                  recordReads = titleOf, getModelTypes = []\<rparr>"

definition twoPosts :: world where
  "twoPosts = initialWorld (\<lambda>c. if c = 10 then [1, 2] else [])"

text \<open>
  An adapter after \<^verbatim>\<open>watchModelTypes\<close>, two calls of \<^verbatim>\<open>watchRecords\<close> for the
  posts and one for the comments; the same adapter after the release that
  \<^verbatim>\<open>watchModelTypes\<close> returned has been called.
\<close>

definition typesAndPostsWatched :: DataAdapter where
  "typesAndPostsWatched =
     fst (watchRecords postHooks twoPosts ''post'' 1 (fst (watchModelTypes postHooks twoPosts 0 init)))"

definition allWatched :: DataAdapter where
  "allWatched =
     fst (watchRecords postHooks twoPosts ''comment'' 3
       (fst (watchRecords postHooks twoPosts ''post'' 2 typesAndPostsWatched)))"

definition typesReleased :: DataAdapter where
  "typesReleased = stateOf (callTypesRelease (snd (watchModelTypes postHooks twoPosts 0 init)) allWatched)"

section \<open>Proofs\<close>

subsection \<open>Caches and one revalidation\<close>

lemma valueForTag_ge: "t \<in> set ts \<Longrightarrow> revisions w t \<le> valueForTag w ts"
  unfolding valueForTag_def by (induction ts) auto

lemma isValid_fresh: "isValid w (Some (tg, valueForTag w tg))"
  by (simp add: isValid_def validateTag_def)

lemma consumeTag_Some [simp]: "consumeTag ts (Some cur) = Some (cur @ ts)"
  by (simp add: consumeTag_def)

lemma consumeTag_None [simp]: "consumeTag ts None = None"
  by (simp add: consumeTag_def)

lemma recordCache_fn_eq:
  "recordCache_fn reads r (Some []) (hba, a, u) =
     (if hba then ((True, a, u @ [Wrapped r]), Some (reads r))
      else ((True, a @ [Wrapped r], u), Some (reads r)))"
  by (simp add: recordCache_fn_def wrapRecord_def)

lemma visit_eq:
  "visit reads w r (rw, seen, tr) =
     (case map_of (recordCaches rw) r of
        None \<Rightarrow>
          (rw\<lparr>recordCaches := AList.update r \<lparr>hasBeenAdded = True, node = Some (reads r, valueForTag w (reads r))\<rparr> (recordCaches rw),
              added := added rw @ [Wrapped r]\<rparr>, insert r seen, consumeTag (reads r) tr)
      | Some rc \<Rightarrow>
          if isValid w (node rc) then (rw, insert r seen, consumeTag (tagOf (node rc)) tr)
          else if hasBeenAdded rc then
            (rw\<lparr>recordCaches := AList.update r \<lparr>hasBeenAdded = True, node = Some (reads r, valueForTag w (reads r))\<rparr> (recordCaches rw),
                updated := updated rw @ [Wrapped r]\<rparr>, insert r seen, consumeTag (reads r) tr)
          else
            (rw\<lparr>recordCaches := AList.update r \<lparr>hasBeenAdded = True, node = Some (reads r, valueForTag w (reads r))\<rparr> (recordCaches rw),
                added := added rw @ [Wrapped r]\<rparr>, insert r seen, consumeTag (reads r) tr))"
  by (auto simp: visit_def getValue_def recordCache_fn_eq tagOf_def isValid_def update_triv Let_def split: option.splits)

lemma revalidate_valid:
  "isValid w (recordArrayCache rw) \<Longrightarrow> revalidate reads w records rw = (rw, [])"
  by (simp add: revalidate_def getValue_def)

lemma revalidate_invalid:
  "\<not> isValid w (recordArrayCache rw) \<Longrightarrow>
   revalidate reads w records rw =
     (rerun reads w records rw,
      dispatch (added (rerun reads w records rw)) (updated (rerun reads w records rw))
        (removed (rerun reads w records rw)))"
  by (simp add: revalidate_def getValue_def recordArrayCache_fn_def untrack_def rerun_def
      iteration_def frameTags_def Let_def split: prod.splits)

lemma rerun_valid: "isValid w (recordArrayCache (rerun reads w records rw))"
  by (simp add: rerun_def isValid_fresh split: prod.splits)

lemma revalidate_leaves_valid: "isValid w (recordArrayCache (fst (revalidate reads w records rw)))"
  by (cases "isValid w (recordArrayCache rw)") (simp_all add: revalidate_valid revalidate_invalid rerun_valid)

lemma dispatch_sorted: "sorted_wrt (<) (map callback (dispatch a u r))"
  by (simp add: dispatch_def)

lemma dispatch_payload: "c \<in> set (dispatch a u r) \<Longrightarrow> payload c \<noteq> []"
  by (auto simp: dispatch_def split: if_splits)

lemma dispatch_added: "RecordsAdded x \<in> set (dispatch a u r) \<longleftrightarrow> x = a \<and> x \<noteq> []"
  by (auto simp: dispatch_def)

lemma dispatch_updated: "RecordsUpdated x \<in> set (dispatch a u r) \<longleftrightarrow> x = u \<and> x \<noteq> []"
  by (auto simp: dispatch_def)

lemma dispatch_removed: "RecordsRemoved x \<in> set (dispatch a u r) \<longleftrightarrow> x = r \<and> x \<noteq> []"
  by (auto simp: dispatch_def)

lemma dispatch_empty: "dispatch [] [] [] = []"
  by (simp add: dispatch_def)

text \<open>
  C2. One revalidation of a RecordsWatcher calls each of the three callbacks at most once
  and in the order added, updated, removed (the callback indices of its calls increase
  strictly), every call carries a non-empty list, a callback is called exactly when the
  list of its category is not empty after the evaluation, and no callback is called when
  the cache is still valid or the three lists are empty.
\<close>

theorem revalidate_calls:
  "sorted_wrt (<) (map callback (snd (revalidate reads w records rw))) \<and>
   (\<forall>c \<in> set (snd (revalidate reads w records rw)). payload c \<noteq> []) \<and>
   (isValid w (recordArrayCache rw) \<longrightarrow> snd (revalidate reads w records rw) = []) \<and>
   (\<not> isValid w (recordArrayCache rw) \<longrightarrow>
      (\<forall>x. RecordsAdded x \<in> set (snd (revalidate reads w records rw)) \<longleftrightarrow>
            x = added (fst (revalidate reads w records rw)) \<and> x \<noteq> []) \<and>
      (\<forall>x. RecordsUpdated x \<in> set (snd (revalidate reads w records rw)) \<longleftrightarrow>
            x = updated (fst (revalidate reads w records rw)) \<and> x \<noteq> []) \<and>
      (\<forall>x. RecordsRemoved x \<in> set (snd (revalidate reads w records rw)) \<longleftrightarrow>
            x = removed (fst (revalidate reads w records rw)) \<and> x \<noteq> []) \<and>
      (added (fst (revalidate reads w records rw)) = [] \<and>
       updated (fst (revalidate reads w records rw)) = [] \<and>
       removed (fst (revalidate reads w records rw)) = [] \<longrightarrow>
         snd (revalidate reads w records rw) = []))"
proof (cases "isValid w (recordArrayCache rw)")
  case True
  then show ?thesis by (simp add: revalidate_valid)
next
  case False
  then show ?thesis
    by (simp add: revalidate_invalid dispatch_sorted dispatch_payload dispatch_added
        dispatch_updated dispatch_removed dispatch_empty)
qed

theorem revalidate_calls_witness:
  "snd (revalidate (\<lambda>r. [TagFor r ''title'']) (initialWorld (\<lambda>_. [1, 2])) 0 newRecordsWatcher) =
     [RecordsAdded [Wrapped 1, Wrapped 2]] \<and>
   sorted_wrt (<) (map callback (snd (revalidate (\<lambda>r. [TagFor r ''title'']) (initialWorld (\<lambda>_. [1, 2])) 0 newRecordsWatcher))) \<and>
   payload (RecordsAdded [Wrapped 1, Wrapped 2]) \<noteq> []"
proof -
  have "snd (revalidate (\<lambda>r. [TagFor r ''title'']) (initialWorld (\<lambda>_. [1, 2])) 0 newRecordsWatcher) =
     [RecordsAdded [Wrapped 1, Wrapped 2]]"
    by code_simp
  then show ?thesis
    using revalidate_calls [of "\<lambda>r. [TagFor r ''title'']" "initialWorld (\<lambda>_. [1, 2])" 0 newRecordsWatcher]
    by simp
qed

subsection \<open>Revalidating twice\<close>

lemma valueForTag_cong:
  "\<forall>t \<in> set ts. revisions w' t = revisions w t \<Longrightarrow> valueForTag w' ts = valueForTag w ts"
  unfolding valueForTag_def by (induction ts) auto

lemma isValid_cong:
  "\<forall>t \<in> set (tagOf c). revisions w' t = revisions w t \<Longrightarrow> isValid w' c = isValid w c"
proof (cases c)
  case None
  then show ?thesis by (simp add: isValid_def)
next
  case (Some p)
  assume h: "\<forall>t \<in> set (tagOf c). revisions w' t = revisions w t"
  obtain tg sn where p: "p = (tg, sn)" by (cases p)
  from h Some p have "valueForTag w' tg = valueForTag w tg"
    by (intro valueForTag_cong) (simp add: tagOf_def)
  with Some p show ?thesis by (simp add: isValid_def validateTag_def)
qed

lemma TypeWatcher_revalidate_valid:
  "isValid w (cache tw) \<Longrightarrow> TypeWatcher_revalidate w records oc tw l = (tw, l)"
  by (simp add: TypeWatcher_revalidate_def getValue_def)

lemma TypeWatcher_revalidate_leaves_valid:
  "isValid w (cache (fst (TypeWatcher_revalidate w records oc tw l)))"
  by (auto simp: TypeWatcher_revalidate_def getValue_def isValid_fresh Let_def split: prod.splits)

text \<open>
  C5. After a revalidation of a watcher of either kind, a second revalidation in a world
  where no tag the watcher's cache depends on has been dirtied since makes no call and
  leaves the watcher as it is: the RecordsWatcher reports nothing, the TypeWatcher does
  not run \<open>onChange\<close>.
\<close>

theorem revalidate_twice:
  "((\<forall>t \<in> set (tagOf (recordArrayCache (fst (revalidate reads w records rw)))).
       revisions w' t = revisions w t) \<longrightarrow>
    revalidate reads w' records (fst (revalidate reads w records rw)) =
      (fst (revalidate reads w records rw), [])) \<and>
   ((\<forall>t \<in> set (tagOf (cache (fst (TypeWatcher_revalidate w records oc tw l)))).
       revisions w' t = revisions w t) \<longrightarrow>
    TypeWatcher_revalidate w' records oc (fst (TypeWatcher_revalidate w records oc tw l)) l' =
      (fst (TypeWatcher_revalidate w records oc tw l), l'))"
proof (intro conjI impI)
  assume "\<forall>t \<in> set (tagOf (recordArrayCache (fst (revalidate reads w records rw)))).
       revisions w' t = revisions w t"
  then have "isValid w' (recordArrayCache (fst (revalidate reads w records rw)))"
    using isValid_cong [of "recordArrayCache (fst (revalidate reads w records rw))" w' w]
      revalidate_leaves_valid [of w reads records rw] by blast
  then show "revalidate reads w' records (fst (revalidate reads w records rw)) =
      (fst (revalidate reads w records rw), [])"
    by (rule revalidate_valid)
next
  assume "\<forall>t \<in> set (tagOf (cache (fst (TypeWatcher_revalidate w records oc tw l)))).
       revisions w' t = revisions w t"
  then have "isValid w' (cache (fst (TypeWatcher_revalidate w records oc tw l)))"
    using isValid_cong [of "cache (fst (TypeWatcher_revalidate w records oc tw l))" w' w]
      TypeWatcher_revalidate_leaves_valid [of w records oc tw l] by blast
  then show "TypeWatcher_revalidate w' records oc (fst (TypeWatcher_revalidate w records oc tw l)) l' =
      (fst (TypeWatcher_revalidate w records oc tw l), l')"
    by (rule TypeWatcher_revalidate_valid)
qed

theorem revalidate_twice_witness:
  "revalidate (\<lambda>r. [TagFor r ''title'']) (dirtyTag (TagFor 7 ''other'') (initialWorld (\<lambda>_. [1, 2]))) 0
     (fst (revalidate (\<lambda>r. [TagFor r ''title'']) (initialWorld (\<lambda>_. [1, 2])) 0 newRecordsWatcher)) =
     (fst (revalidate (\<lambda>r. [TagFor r ''title'']) (initialWorld (\<lambda>_. [1, 2])) 0 newRecordsWatcher), []) \<and>
   snd (revalidate (\<lambda>r. [TagFor r ''title'']) (initialWorld (\<lambda>_. [1, 2])) 0 newRecordsWatcher) =
     [RecordsAdded [Wrapped 1, Wrapped 2]] \<and>
   snd (TypeWatcher_revalidate (dirtyTag (TagFor 7 ''other'') (initialWorld (\<lambda>_. [1, 2]))) 0
          (\<lambda>tr n. (Suc n, tr))
          (fst (TypeWatcher_revalidate (initialWorld (\<lambda>_. [1, 2])) 0 (\<lambda>tr n. (Suc n, tr))
                  \<lparr>hasBeenAccessed = True, cache = None\<rparr> (0::nat))) 1) = 1 \<and>
   snd (TypeWatcher_revalidate (initialWorld (\<lambda>_. [1, 2])) 0 (\<lambda>tr n. (Suc n, tr))
          \<lparr>hasBeenAccessed = True, cache = None\<rparr> (0::nat)) = 1"
proof -
  have a: "snd (revalidate (\<lambda>r. [TagFor r ''title'']) (initialWorld (\<lambda>_. [1, 2])) 0 newRecordsWatcher) =
     [RecordsAdded [Wrapped 1, Wrapped 2]]"
    by code_simp
  have b: "TypeWatcher_revalidate (initialWorld (\<lambda>_. [1, 2])) 0 (\<lambda>tr n. (Suc n, tr))
          \<lparr>hasBeenAccessed = True, cache = None\<rparr> (0::nat) =
          (\<lparr>hasBeenAccessed = True, cache = Some ([TagFor 0 ''[]''], 1)\<rparr>, 1)"
    by (simp add: TypeWatcher_revalidate_def getValue_def isValid_def TypeWatcher_fn_def
        valueForTag_def initialWorld_def)
  have c: "tagOf (recordArrayCache (fst (revalidate (\<lambda>r. [TagFor r ''title''])
            (initialWorld (\<lambda>_. [1, 2])) 0 newRecordsWatcher))) =
           [TagFor 0 ''[]'', TagFor 1 ''title'', TagFor 2 ''title'']"
    by code_simp
  show ?thesis
    using a b c
      revalidate_twice [where reads = "\<lambda>r. [TagFor r ''title'']" and w = "initialWorld (\<lambda>_. [1, 2])"
        and records = 0 and rw = newRecordsWatcher
        and w' = "dirtyTag (TagFor 7 ''other'') (initialWorld (\<lambda>_. [1, 2]))"
        and oc = "\<lambda>tr n. (Suc n, tr)" and tw = "\<lparr>hasBeenAccessed = True, cache = None\<rparr>"
        and l = "0::nat" and l' = "1::nat"]
    by (simp add: dirtyTag_def tagOf_def)
qed

subsection \<open>The TypeWatcher\<close>

lemma TypeWatcher_first:
  "\<not> hasBeenAccessed tw \<Longrightarrow> \<not> isValid w (cache tw) \<Longrightarrow>
   TypeWatcher_revalidate w records oc tw l =
     (\<lparr>hasBeenAccessed = True,
       cache = Some ([TagFor records ''[]''], valueForTag w [TagFor records ''[]''])\<rparr>, l)"
  by (simp add: TypeWatcher_revalidate_def getValue_def TypeWatcher_fn_def Let_def)

lemma TypeWatcher_later:
  "hasBeenAccessed tw \<Longrightarrow> \<not> isValid w (cache tw) \<Longrightarrow>
   TypeWatcher_revalidate w records oc tw l =
     (\<lparr>hasBeenAccessed = True,
       cache = Some (frameTags (snd (oc (Some [TagFor records ''[]'']) l)),
                     valueForTag w (frameTags (snd (oc (Some [TagFor records ''[]'']) l))))\<rparr>,
      fst (oc (Some [TagFor records ''[]'']) l))"
  by (simp add: TypeWatcher_revalidate_def getValue_def TypeWatcher_fn_def frameTags_def Let_def
      split: prod.splits)

lemma pushObject_invalidates:
  assumes "wf_world w"
  shows "\<not> isValid (pushObject records r w) (Some ([TagFor records ''[]''], valueForTag w [TagFor records ''[]'']))"
proof -
  from assms have "revisions w (TagFor records ''[]'') \<le> REVISION w" "1 \<le> REVISION w"
    by (simp_all add: wf_world_def)
  then show ?thesis
    by (simp add: isValid_def validateTag_def valueForTag_def pushObject_def
        notifyPropertyChange_def dirtyTag_def)
qed

lemma arrays_pushObject:
  "arrays (pushObject records r w) records = arrays w records @ [r]"
  by (simp add: pushObject_def notifyPropertyChange_def dirtyTag_def)

lemma observeModelType_init:
  "observeModelType h w mn cb init =
     (\<lparr>releaseMethods = [], recordsWatchers = [],
       typeWatchers = [(getRecords h mn,
         \<lparr>typeWatcher = \<lparr>hasBeenAccessed = True,
              cache = Some ([TagFor (getRecords h mn) ''[]''],
                            valueForTag w [TagFor (getRecords h mn) ''[]''])\<rparr>,
          typesUpdated = cb, modelName = mn, typeRelease = ReleaseType 0 (getRecords h mn)\<rparr>)],
       endListeners = 1, nextFn = 1, calls = []\<rparr>,
      ReleaseType 0 (getRecords h mn))"
  by (simp add: observeModelType_def init_def backburner_on_def newTypeWatcher_def
      TypeWatcher_first isValid_def Let_def)

lemma endEvent_after_push:
  assumes "wf_world w"
  shows "calls (endEvent h (pushObject (getRecords h mn) r w) (fst (observeModelType h w mn cb init))) =
     [TypesUpdated cb [\<lparr>name = mn, count = Suc (length (arrays w (getRecords h mn)))\<rparr>]]"
proof -
  let ?c = "getRecords h mn"
  let ?w' = "pushObject ?c r w"
  let ?tw = "\<lparr>hasBeenAccessed = True, cache = Some ([TagFor ?c ''[]''], valueForTag w [TagFor ?c ''[]''])\<rparr>"
  have inv: "\<not> isValid ?w' (cache ?tw)"
    using pushObject_invalidates [OF assms, of ?c r] by simp
  have "snd (TypeWatcher_revalidate ?w' ?c (onChange h ?w' cb mn) ?tw []) =
        fst (onChange h ?w' cb mn (Some [TagFor ?c ''[]'']) [])"
    using TypeWatcher_later [of ?tw ?w' ?c "onChange h ?w' cb mn" "[]"] inv by simp
  also have "\<dots> = [TypesUpdated cb [\<lparr>name = mn, count = Suc (length (arrays w ?c))\<rparr>]]"
    by (simp add: onChange_def wrapModelType_def arrays_pushObject)
  finally have tw: "snd (TypeWatcher_revalidate ?w' ?c (onChange h ?w' cb mn) ?tw []) =
     [TypesUpdated cb [\<lparr>name = mn, count = Suc (length (arrays w ?c))\<rparr>]]" .
  show ?thesis
    using tw
    by (simp add: observeModelType_init endEvent_def flushWatchers_def flushType_def
        case_prod_beta)
qed

subsection \<open>watchRecords on a registered array\<close>

lemma nextFn_backburner_on [simp]: "nextFn (backburner_on s) = nextFn s"
  by (simp add: backburner_on_def)

lemma recordsWatchers_backburner_on [simp]: "recordsWatchers (backburner_on s) = recordsWatchers s"
  by (simp add: backburner_on_def)

lemma typeWatchers_backburner_on [simp]: "typeWatchers (backburner_on s) = typeWatchers s"
  by (simp add: backburner_on_def)

lemma watchRecords_found:
  "map_of (recordsWatchers s) (getRecords h mn) = Some e \<Longrightarrow>
   watchRecords h w mn cb s = (s, release e)"
  by (simp add: watchRecords_def)

lemma watchRecords_new_entry:
  assumes "map_of (recordsWatchers s) (getRecords h mn) = None"
  shows "map_of (recordsWatchers (fst (watchRecords h w mn cb s))) (getRecords h mn) =
           Some \<lparr>watcher = fst (revalidate (recordReads h) w (getRecords h mn) newRecordsWatcher),
                 callbacks = cb, release = ReleaseRecords (nextFn s) (getRecords h mn)\<rparr>"
    and "snd (watchRecords h w mn cb s) = ReleaseRecords (nextFn s) (getRecords h mn)"
  using assms
  by (simp_all add: watchRecords_def Let_def update_conv' case_prod_beta)

text \<open>
  C9. A call of \<^verbatim>\<open>watchRecords\<close> whose model name resolves to an array that already has
  a registered RecordsWatcher leaves the adapter as it is (no watcher is created, nothing
  is revalidated, no callback is called, the callbacks passed in are kept nowhere) and
  returns the \<^verbatim>\<open>release\<close> of the registered watcher; after a first call that creates
  the watcher, a second call for the same array returns what the first returned.
\<close>

theorem watchRecords_again:
  "(map_of (recordsWatchers s) (getRecords h mn) = Some e \<longrightarrow>
      watchRecords h w mn cb s = (s, release e)) \<and>
   (map_of (recordsWatchers s) (getRecords h mn) = None \<and> getRecords h mn' = getRecords h mn \<longrightarrow>
      watchRecords h w' mn' cb' (fst (watchRecords h w mn cb s)) = watchRecords h w mn cb s \<and>
      map_option callbacks (map_of (recordsWatchers (fst (watchRecords h w mn cb s))) (getRecords h mn)) =
        Some cb)"
proof (intro conjI impI)
  assume "map_of (recordsWatchers s) (getRecords h mn) = Some e"
  then show "watchRecords h w mn cb s = (s, release e)"
    by (rule watchRecords_found)
next
  assume a: "map_of (recordsWatchers s) (getRecords h mn) = None \<and> getRecords h mn' = getRecords h mn"
  let ?e = "\<lparr>watcher = fst (revalidate (recordReads h) w (getRecords h mn) newRecordsWatcher),
                 callbacks = cb, release = ReleaseRecords (nextFn s) (getRecords h mn)\<rparr>"
  from a have l: "map_of (recordsWatchers (fst (watchRecords h w mn cb s))) (getRecords h mn') = Some ?e"
    by (simp add: watchRecords_new_entry)
  from a have r: "snd (watchRecords h w mn cb s) = release ?e"
    by (simp add: watchRecords_new_entry)
  have "watchRecords h w' mn' cb' (fst (watchRecords h w mn cb s)) =
          (fst (watchRecords h w mn cb s), release ?e)"
    using l by (rule watchRecords_found)
  with r show "watchRecords h w' mn' cb' (fst (watchRecords h w mn cb s)) = watchRecords h w mn cb s"
    by (simp add: prod_eq_iff)
  from a show "map_option callbacks (map_of (recordsWatchers (fst (watchRecords h w mn cb s))) (getRecords h mn)) =
        Some cb"
    by (simp add: watchRecords_new_entry)
qed

theorem watchRecords_again_witness:
  "watchRecords \<lparr>getRecords = (\<lambda>_. 10), recordReads = (\<lambda>_. []), getModelTypes = []\<rparr>
      (pushObject 10 3 (initialWorld (\<lambda>_. [1, 2]))) ''post'' 1
      (fst (watchRecords \<lparr>getRecords = (\<lambda>_. 10), recordReads = (\<lambda>_. []), getModelTypes = []\<rparr>
         (initialWorld (\<lambda>_. [1, 2])) ''post'' 0 init)) =
    watchRecords \<lparr>getRecords = (\<lambda>_. 10), recordReads = (\<lambda>_. []), getModelTypes = []\<rparr>
         (initialWorld (\<lambda>_. [1, 2])) ''post'' 0 init \<and>
   calls (fst (watchRecords \<lparr>getRecords = (\<lambda>_. 10), recordReads = (\<lambda>_. []), getModelTypes = []\<rparr>
         (initialWorld (\<lambda>_. [1, 2])) ''post'' 0 init)) =
     [RecordsCall 0 (RecordsAdded [Wrapped 1, Wrapped 2])] \<and>
   snd (watchRecords \<lparr>getRecords = (\<lambda>_. 10), recordReads = (\<lambda>_. []), getModelTypes = []\<rparr>
         (initialWorld (\<lambda>_. [1, 2])) ''post'' 0 init) = ReleaseRecords 0 10"
proof -
  have c: "calls (fst (watchRecords \<lparr>getRecords = (\<lambda>_. 10), recordReads = (\<lambda>_. []), getModelTypes = []\<rparr>
         (initialWorld (\<lambda>_. [1, 2])) ''post'' 0 init)) =
     [RecordsCall 0 (RecordsAdded [Wrapped 1, Wrapped 2])]"
    by code_simp
  have d: "snd (watchRecords \<lparr>getRecords = (\<lambda>_. 10), recordReads = (\<lambda>_. []), getModelTypes = []\<rparr>
         (initialWorld (\<lambda>_. [1, 2])) ''post'' 0 init) = ReleaseRecords 0 10"
    by code_simp
  have n: "map_of (recordsWatchers init) 10 = None"
    by (simp add: init_def)
  show ?thesis
    using c d n
      watchRecords_again [where h = "\<lparr>getRecords = (\<lambda>_. 10), recordReads = (\<lambda>_. []), getModelTypes = []\<rparr>"
        and s = init and mn = "''post''" and mn' = "''post''" and cb = 0 and cb' = 1
        and w = "initialWorld (\<lambda>_. [1, 2])" and w' = "pushObject 10 3 (initialWorld (\<lambda>_. [1, 2]))"]
    by simp
qed

subsection \<open>The iteration of one evaluation\<close>

lemma visit_cases:
  assumes "seenInv w records (rw, seen, tr)"
  obtains
    (keep) rc where "map_of (recordCaches rw) r = Some rc" "isValid w (node rc)"
      "visit reads w r (rw, seen, tr) = (rw, insert r seen, consumeTag (tagOf (node rc)) tr)"
  | (add) "r \<notin> seen"
      "map_of (recordCaches rw) r = None \<or>
       (\<exists>rc. map_of (recordCaches rw) r = Some rc \<and> \<not> hasBeenAdded rc)"
      "visit reads w r (rw, seen, tr) =
         (rw\<lparr>recordCaches := AList.update r \<lparr>hasBeenAdded = True,
                node = Some (reads r, valueForTag w (reads r))\<rparr> (recordCaches rw),
             added := added rw @ [Wrapped r]\<rparr>, insert r seen, consumeTag (reads r) tr)"
  | (upd) rc where "r \<notin> seen" "map_of (recordCaches rw) r = Some rc" "hasBeenAdded rc"
      "visit reads w r (rw, seen, tr) =
         (rw\<lparr>recordCaches := AList.update r \<lparr>hasBeenAdded = True,
                node = Some (reads r, valueForTag w (reads r))\<rparr> (recordCaches rw),
             updated := updated rw @ [Wrapped r]\<rparr>, insert r seen, consumeTag (reads r) tr)"
proof -
  from assms
  have valid: "\<forall>r \<in> seen. \<exists>rc. map_of (recordCaches rw) r = Some rc \<and> isValid w (node rc)"
    by (simp add: seenInv_def)
  show thesis
  proof (cases "map_of (recordCaches rw) r")
    case None
    with valid have "r \<notin> seen" by auto
    with None show ?thesis using add by (simp add: visit_eq)
  next
    case (Some rc)
    show ?thesis
    proof (cases "isValid w (node rc)")
      case True
      with Some show ?thesis using keep by (simp add: visit_eq)
    next
      case False
      with Some valid have ns: "r \<notin> seen" by auto
      show ?thesis
      proof (cases "hasBeenAdded rc")
        case True
        with Some False ns show ?thesis using upd by (simp add: visit_eq)
      next
        case hba: False
        with Some False ns show ?thesis using add by (simp add: visit_eq)
      qed
    qed
  qed
qed

lemma seenInv_visit:
  assumes inv: "seenInv w records (rw, seen, tr)"
  shows "seenInv w records (visit reads w r (rw, seen, tr))"
proof -
  from inv obtain ts where ts: "tr = Some ts" by (auto simp: seenInv_def)
  from inv have objs: "object ` set (added rw @ updated rw) \<subseteq> seen"
    and dist: "distinct (map object (added rw @ updated rw))"
    and valid: "\<forall>r \<in> seen. \<exists>rc. map_of (recordCaches rw) r = Some rc \<and> isValid w (node rc)"
    and arr: "TagFor records ''[]'' \<in> set ts"
    and tags: "\<forall>t \<in> set ts. t = TagFor records ''[]'' \<or>
           (\<exists>r \<in> seen. \<exists>rc. map_of (recordCaches rw) r = Some rc \<and> t \<in> set (tagOf (node rc)))"
    by (simp_all add: seenInv_def ts frameTags_def)
  let ?fresh = "\<lparr>hasBeenAdded = True, node = Some (reads r, valueForTag w (reads r))\<rparr>"
  let ?cs = "AList.update r ?fresh (recordCaches rw)"
  have fresh_tag: "tagOf (node ?fresh) = reads r" by (simp add: tagOf_def)
  have same: "map_of ?cs r = Some ?fresh" by (simp add: update_conv')
  have other: "\<And>r'. r' \<noteq> r \<Longrightarrow> map_of ?cs r' = map_of (recordCaches rw) r'"
    by (simp add: update_conv')
  have v: "\<forall>r' \<in> insert r seen. \<exists>rc. map_of ?cs r' = Some rc \<and> isValid w (node rc)"
    using valid same other by (metis insert_iff isValid_fresh recordCache.select_convs(2))
  have t: "\<forall>t \<in> set (ts @ reads r). t = TagFor records ''[]'' \<or>
         (\<exists>r' \<in> insert r seen. \<exists>rc'. map_of ?cs r' = Some rc' \<and> t \<in> set (tagOf (node rc')))"
    if new: "r \<notin> seen"
  proof
    fix t assume "t \<in> set (ts @ reads r)"
    then consider "t \<in> set ts" | "t \<in> set (reads r)" by auto
    then show "t = TagFor records ''[]'' \<or>
         (\<exists>r' \<in> insert r seen. \<exists>rc'. map_of ?cs r' = Some rc' \<and> t \<in> set (tagOf (node rc')))"
    proof cases
      case 1
      with tags consider "t = TagFor records ''[]''"
        | r' rc' where "r' \<in> seen" "map_of (recordCaches rw) r' = Some rc'" "t \<in> set (tagOf (node rc'))"
        by blast
      then show ?thesis
      proof cases
        case 1 then show ?thesis by simp
      next
        case 2
        with new have "r' \<noteq> r" by auto
        with 2 other [of r'] show ?thesis by auto
      qed
    next
      case 2
      with same fresh_tag show ?thesis by auto
    qed
  qed
  from inv show ?thesis
  proof (rule visit_cases [where reads = reads and r = r], goal_cases keep add upd)
    case (keep rc)
    have "\<forall>t \<in> set (ts @ tagOf (node rc)). t = TagFor records ''[]'' \<or>
           (\<exists>r' \<in> insert r seen. \<exists>rc'. map_of (recordCaches rw) r' = Some rc' \<and> t \<in> set (tagOf (node rc')))"
      using tags keep(1) by auto
    with keep objs dist valid arr show ?case
      by (auto simp: seenInv_def frameTags_def ts)
  next
    case add
    from objs add(1) have "r \<notin> object ` set (added rw @ updated rw)" by auto
    with dist have d: "distinct (map object ((added rw @ [Wrapped r]) @ updated rw))" by auto
    from objs have o: "object ` set ((added rw @ [Wrapped r]) @ updated rw) \<subseteq> insert r seen" by auto
    show ?case
      unfolding add(3) seenInv_def using v t [OF add(1)] d o arr by (simp add: frameTags_def ts)
  next
    case (upd rc)
    from objs upd(1) have "r \<notin> object ` set (added rw @ updated rw)" by auto
    with dist have d: "distinct (map object (added rw @ updated rw @ [Wrapped r]))" by auto
    from objs have o: "object ` set (added rw @ updated rw @ [Wrapped r]) \<subseteq> insert r seen" by auto
    show ?case
      unfolding upd(4) seenInv_def using v t [OF upd(1)] d o arr by (simp add: frameTags_def ts)
  qed
qed

lemma seenInv_fold:
  "seenInv w records st \<Longrightarrow> seenInv w records (fold (visit reads w) cs st)"
proof (induction cs arbitrary: st)
  case Nil
  then show ?case by simp
next
  case (Cons c cs)
  obtain rw seen tr where st: "st = (rw, seen, tr)" by (cases st)
  with Cons.prems have "seenInv w records (visit reads w c st)"
    by (simp add: seenInv_visit)
  then show ?case using Cons.IH by simp
qed

lemma seenInv_start:
  "seenInv w records (rw\<lparr>added := [], updated := [], removed := []\<rparr>, {}, Some [TagFor records ''[]''])"
  by (simp add: seenInv_def frameTags_def)

lemma seenInv_iteration: "seenInv w records (iteration reads w records rw)"
  unfolding iteration_def by (rule seenInv_fold) (rule seenInv_start)

lemma sweep_fold:
  "fold (sweep reads seen) ks (rw, tr) =
     (rw\<lparr>removed := removed rw @ map Wrapped (filter (\<lambda>k. k \<notin> seen) ks),
         recordCaches := filter (\<lambda>p. fst p \<in> seen \<or> fst p \<notin> set ks) (recordCaches rw)\<rparr>,
      consumeTag (concat (map reads (filter (\<lambda>k. k \<notin> seen) ks))) tr)"
proof (induction ks arbitrary: rw tr)
  case Nil
  then show ?case by (cases tr) simp_all
next
  case (Cons k ks)
  show ?case
  proof (cases "k \<in> seen")
    case True
    have "filter (\<lambda>p. fst p \<in> seen \<or> fst p \<notin> set ks) (recordCaches rw) =
          filter (\<lambda>p. fst p \<in> seen \<or> fst p \<notin> set (k # ks)) (recordCaches rw)"
      using True by (intro filter_cong) auto
    moreover have "sweep reads seen k (rw, tr) = (rw, tr)"
      using True by (simp add: sweep_def)
    ultimately show ?thesis using True by (simp add: Cons.IH)
  next
    case False
    have "filter (\<lambda>p. fst p \<in> seen \<or> fst p \<notin> set ks) (AList.delete k (recordCaches rw)) =
          filter (\<lambda>p. fst p \<in> seen \<or> fst p \<notin> set (k # ks)) (recordCaches rw)"
      unfolding AList.delete_eq filter_filter using False by (intro filter_cong) auto
    moreover have "sweep reads seen k (rw, tr) =
        (rw\<lparr>removed := removed rw @ [Wrapped k],
            recordCaches := AList.delete k (recordCaches rw)\<rparr>, consumeTag (reads k) tr)"
      using False by (simp add: sweep_def wrapRecord_def)
    ultimately show ?thesis using False
      by (cases tr) (simp_all add: Cons.IH)
  qed
qed

lemma removalPass_eq:
  "removalPass reads seen tr rw =
     (rw\<lparr>removed := removed rw @ map Wrapped (filter (\<lambda>k. k \<notin> seen) (map fst (recordCaches rw))),
         recordCaches := filter (\<lambda>p. fst p \<in> seen) (recordCaches rw)\<rparr>,
      consumeTag (concat (map reads (filter (\<lambda>k. k \<notin> seen) (map fst (recordCaches rw))))) tr)"
proof -
  have "filter (\<lambda>p. fst p \<in> seen \<or> fst p \<notin> set (map fst (recordCaches rw))) (recordCaches rw) =
        filter (\<lambda>p. fst p \<in> seen) (recordCaches rw)"
    by (intro filter_cong) auto
  then show ?thesis
    unfolding removalPass_def by (simp add: sweep_fold)
qed

lemma rerun_eq:
  "rerun reads w records rw =
     (case iteration reads w records rw of (rw1, seen, tr1) \<Rightarrow>
        rw1\<lparr>removed := removed rw1 @ map Wrapped (filter (\<lambda>k. k \<notin> seen) (map fst (recordCaches rw1))),
            recordCaches := filter (\<lambda>p. fst p \<in> seen) (recordCaches rw1),
            recordArrayCache := Some (frameTags tr1, valueForTag w (frameTags tr1))\<rparr>)"
  by (simp add: rerun_def removalPass_eq split: prod.splits)

lemma addedObjects_dispatch [simp]: "addedObjects (dispatch a u m) = map object a"
  by (simp add: dispatch_def)

lemma updatedObjects_dispatch [simp]: "updatedObjects (dispatch a u m) = map object u"
  by (simp add: dispatch_def)

lemma removedObjects_dispatch [simp]: "removedObjects (dispatch a u m) = map object m"
  by (simp add: dispatch_def)

text \<open>
  C10. In one revalidation of a RecordsWatcher, whatever the array holds and however often
  a record occurs in it, no record is classified twice: the records of the added list and
  of the updated list are pairwise distinct.
\<close>

theorem classified_once:
  "distinct (addedObjects (snd (revalidate reads w records rw)) @
             updatedObjects (snd (revalidate reads w records rw)))"
proof (cases "isValid w (recordArrayCache rw)")
  case True
  then show ?thesis by (simp add: revalidate_valid)
next
  case False
  obtain rw1 seen tr1 where it: "iteration reads w records rw = (rw1, seen, tr1)"
    by (cases "iteration reads w records rw")
  with seenInv_iteration [of w records reads rw]
  have "distinct (map object (added rw1 @ updated rw1))"
    by (simp add: seenInv_def)
  with False it show ?thesis
    by (simp add: revalidate_invalid rerun_eq)
qed

theorem classified_once_witness:
  "snd (revalidate (\<lambda>r. [TagFor r ''title'']) (initialWorld (\<lambda>_. [1, 2, 1, 1])) 0 newRecordsWatcher) =
     [RecordsAdded [Wrapped 1, Wrapped 2]] \<and>
   distinct (addedObjects (snd (revalidate (\<lambda>r. [TagFor r ''title'']) (initialWorld (\<lambda>_. [1, 2, 1, 1])) 0 newRecordsWatcher)) @
             updatedObjects (snd (revalidate (\<lambda>r. [TagFor r ''title'']) (initialWorld (\<lambda>_. [1, 2, 1, 1])) 0 newRecordsWatcher)))"
proof -
  have "snd (revalidate (\<lambda>r. [TagFor r ''title'']) (initialWorld (\<lambda>_. [1, 2, 1, 1])) 0 newRecordsWatcher) =
     [RecordsAdded [Wrapped 1, Wrapped 2]]"
    by code_simp
  then show ?thesis
    using classified_once [of "\<lambda>r. [TagFor r ''title'']" "initialWorld (\<lambda>_. [1, 2, 1, 1])" 0 newRecordsWatcher]
    by simp
qed

subsection \<open>The removal pass and the dependencies\<close>

lemma visit_seen: "fst (snd (visit reads w r (rw, seen, tr))) = insert r seen"
  by (simp add: visit_eq split: option.splits)

lemma fold_visit_seen:
  "fst (snd (fold (visit reads w) cs st)) = fst (snd st) \<union> set cs"
proof (induction cs arbitrary: st)
  case Nil
  then show ?case by simp
next
  case (Cons c cs)
  obtain rw seen tr where st: "st = (rw, seen, tr)" by (cases st)
  have "fst (snd (visit reads w c st)) = insert c (fst (snd st))"
    unfolding st by (simp add: visit_seen)
  then show ?case using Cons.IH [of "visit reads w c st"] by simp
qed

lemma iteration_seen: "fst (snd (iteration reads w records rw)) = set (arrays w records)"
  by (simp add: iteration_def fold_visit_seen)

lemma keys_rerun_subset: "keys (rerun reads w records rw) \<subseteq> set (arrays w records)"
proof -
  obtain rw1 seen tr1 where it: "iteration reads w records rw = (rw1, seen, tr1)"
    by (cases "iteration reads w records rw")
  with iteration_seen [of reads w records rw] have "seen = set (arrays w records)" by simp
  with it show ?thesis by (auto simp: rerun_eq keys_def)
qed

lemma rerun_tags:
  assumes "t \<in> set (tagOf (recordArrayCache (rerun reads w records rw)))"
  shows "t = TagFor records ''[]'' \<or>
         (\<exists>p \<in> set (recordCaches (rerun reads w records rw)). t \<in> set (tagOf (node (snd p))))"
proof -
  obtain rw1 seen tr1 where it: "iteration reads w records rw = (rw1, seen, tr1)"
    by (cases "iteration reads w records rw")
  from assms it have t: "t \<in> set (frameTags tr1)"
    by (simp add: rerun_eq tagOf_def)
  from seenInv_iteration [of w records reads rw] it
  have "\<forall>t \<in> set (frameTags tr1). t = TagFor records ''[]'' \<or>
          (\<exists>r \<in> seen. \<exists>rc. map_of (recordCaches rw1) r = Some rc \<and> t \<in> set (tagOf (node rc)))"
    by (simp add: seenInv_def)
  with t consider "t = TagFor records ''[]''"
    | r rc where "r \<in> seen" "map_of (recordCaches rw1) r = Some rc" "t \<in> set (tagOf (node rc))"
    by blast
  then show ?thesis
  proof cases
    case 1
    then show ?thesis by simp
  next
    case 2
    from 2(2) have "(r, rc) \<in> set (recordCaches rw1)" by (rule map_of_SomeD)
    with 2(1) have "(r, rc) \<in> set (recordCaches (rerun reads w records rw))"
      by (simp add: rerun_eq it)
    with 2(3) show ?thesis by force
  qed
qed

lemma revisions_dirtyTag_other: "t' \<noteq> t \<Longrightarrow> revisions (dirtyTag t w) t' = revisions w t'"
  by (simp add: dirtyTag_def)

text \<open>
  C7. The removal pass runs untracked: it hands back the tracker it was entered with,
  whatever the wrapping of the removed records reads. So after an evaluation of the
  top-level cache every key of the map is a record of the array, every tag the cache
  depends on is the array's tag or a tag of a cache still in the map, and dirtying any
  other tag (one that only removed records read) does not make the next revalidation
  evaluate again.
\<close>

theorem removal_untracked:
  "snd (untrack (removalPass reads seen) tr rw) = tr \<and>
   (\<not> isValid w (recordArrayCache rw) \<longrightarrow>
      keys (fst (revalidate reads w records rw)) \<subseteq> set (arrays w records) \<and>
      (\<forall>t \<in> set (tagOf (recordArrayCache (fst (revalidate reads w records rw)))).
         t = TagFor records ''[]'' \<or>
         (\<exists>p \<in> set (recordCaches (fst (revalidate reads w records rw))).
            t \<in> set (tagOf (node (snd p))))) \<and>
      (t' \<noteq> TagFor records ''[]'' \<and>
       (\<forall>p \<in> set (recordCaches (fst (revalidate reads w records rw))).
          t' \<notin> set (tagOf (node (snd p)))) \<longrightarrow>
       revalidate reads (dirtyTag t' w) records (fst (revalidate reads w records rw)) =
         (fst (revalidate reads w records rw), [])))"
proof (intro conjI impI)
  show "snd (untrack (removalPass reads seen) tr rw) = tr"
    by (simp add: untrack_def case_prod_beta)
next
  assume inv: "\<not> isValid w (recordArrayCache rw)"
  then show "keys (fst (revalidate reads w records rw)) \<subseteq> set (arrays w records)"
    by (simp add: revalidate_invalid keys_rerun_subset)
  from inv show tags: "\<forall>t \<in> set (tagOf (recordArrayCache (fst (revalidate reads w records rw)))).
         t = TagFor records ''[]'' \<or>
         (\<exists>p \<in> set (recordCaches (fst (revalidate reads w records rw))).
            t \<in> set (tagOf (node (snd p))))"
    using rerun_tags [of _ reads w records rw] by (simp add: revalidate_invalid)
  assume other: "t' \<noteq> TagFor records ''[]'' \<and>
       (\<forall>p \<in> set (recordCaches (fst (revalidate reads w records rw))).
          t' \<notin> set (tagOf (node (snd p))))"
  let ?rw = "fst (revalidate reads w records rw)"
  have "\<forall>t \<in> set (tagOf (recordArrayCache ?rw)). revisions (dirtyTag t' w) t = revisions w t"
  proof
    fix t assume "t \<in> set (tagOf (recordArrayCache ?rw))"
    with tags other have "t \<noteq> t'" by blast
    then show "revisions (dirtyTag t' w) t = revisions w t"
      by (rule revisions_dirtyTag_other)
  qed
  then have "isValid (dirtyTag t' w) (recordArrayCache ?rw)"
    using isValid_cong [of "recordArrayCache ?rw" "dirtyTag t' w" w]
      revalidate_leaves_valid [of w reads records rw] by blast
  then show "revalidate reads (dirtyTag t' w) records ?rw = (?rw, [])"
    by (rule revalidate_valid)
qed

theorem removal_untracked_witness:
  "snd (revalidate (\<lambda>r. [TagFor r ''title'']) (removeObject 0 2 (initialWorld (\<lambda>_. [1, 2]))) 0
          (fst (revalidate (\<lambda>r. [TagFor r ''title'']) (initialWorld (\<lambda>_. [1, 2])) 0 newRecordsWatcher))) =
     [RecordsRemoved [Wrapped 2]] \<and>
   tagOf (recordArrayCache (fst (revalidate (\<lambda>r. [TagFor r ''title''])
          (removeObject 0 2 (initialWorld (\<lambda>_. [1, 2]))) 0
          (fst (revalidate (\<lambda>r. [TagFor r ''title'']) (initialWorld (\<lambda>_. [1, 2])) 0 newRecordsWatcher))))) =
     [TagFor 0 ''[]'', TagFor 1 ''title''] \<and>
   snd (revalidate (\<lambda>r. [TagFor r ''title''])
          (dirtyTag (TagFor 2 ''title'') (removeObject 0 2 (initialWorld (\<lambda>_. [1, 2])))) 0
          (fst (revalidate (\<lambda>r. [TagFor r ''title'']) (removeObject 0 2 (initialWorld (\<lambda>_. [1, 2]))) 0
             (fst (revalidate (\<lambda>r. [TagFor r ''title'']) (initialWorld (\<lambda>_. [1, 2])) 0 newRecordsWatcher))))) = []"
proof -
  let ?reads = "\<lambda>r. [TagFor r ''title'']"
  let ?w0 = "initialWorld (\<lambda>_. [1, 2])"
  let ?w1 = "removeObject 0 2 ?w0"
  let ?rw1 = "fst (revalidate ?reads ?w0 0 newRecordsWatcher)"
  let ?rw2 = "fst (revalidate ?reads ?w1 0 ?rw1)"
  have a: "\<not> isValid ?w1 (recordArrayCache ?rw1)"
    by code_simp
  have b: "snd (revalidate ?reads ?w1 0 ?rw1) = [RecordsRemoved [Wrapped 2]]"
    by code_simp
  have c: "recordCaches ?rw2 = [(1, \<lparr>hasBeenAdded = True, node = Some ([TagFor 1 ''title''], 1)\<rparr>)]"
    by code_simp
  have d: "tagOf (recordArrayCache ?rw2) = [TagFor 0 ''[]'', TagFor 1 ''title'']"
    by code_simp
  show ?thesis
    using a b c d
      removal_untracked [where reads = ?reads and w = ?w1 and records = 0 and rw = ?rw1
        and t' = "TagFor 2 ''title''" and seen = "{}" and tr = None]
    by (simp add: tagOf_def)
qed

subsection \<open>Added, updated and removed in one evaluation\<close>

lemma set_update_cases:
  "p \<in> set (AList.update k v al) \<Longrightarrow> p = (k, v) \<or> p \<in> set al"
  by (induction al) (auto split: if_splits)

lemma map_of_keys: "map_of (recordCaches rw) r = Some rc \<Longrightarrow> r \<in> keys rw"
  unfolding keys_def by (metis fst_conv image_eqI map_of_SomeD)

lemma map_of_not_keys: "map_of (recordCaches rw) r = None \<Longrightarrow> r \<notin> keys rw"
  unfolding keys_def by (simp add: map_of_eq_None_iff)

lemma passInv_visit:
  assumes s: "seenInv w records (rw, seen, tr)" and p: "passInv K (rw, seen, tr)"
  shows "passInv K (visit reads w r (rw, seen, tr))"
proof -
  from p have k: "keys rw = K \<union> seen"
    and d: "distinct (map fst (recordCaches rw))"
    and h: "\<forall>p \<in> set (recordCaches rw). hasBeenAdded (snd p)"
    and a: "object ` set (added rw) = seen - K"
    and u: "object ` set (updated rw) \<subseteq> seen \<inter> K"
    and m: "removed rw = []"
    by (simp_all add: passInv_def)
  let ?fresh = "\<lparr>hasBeenAdded = True, node = Some (reads r, valueForTag w (reads r))\<rparr>"
  have h': "\<forall>p \<in> set (AList.update r ?fresh (recordCaches rw)). hasBeenAdded (snd p)"
    using h set_update_cases [of _ r ?fresh "recordCaches rw"] by fastforce
  have d': "distinct (map fst (AList.update r ?fresh (recordCaches rw)))"
    using d by (rule distinct_update)
  have k': "fst ` set (AList.update r ?fresh (recordCaches rw)) = insert r (keys rw)"
    by (simp add: dom_update keys_def)
  from s show ?thesis
  proof (rule visit_cases [where reads = reads and r = r], goal_cases keep add upd)
    case (keep rc)
    from keep(1) have "r \<in> keys rw" by (rule map_of_keys)
    with k have "r \<in> K \<or> r \<in> seen" by auto
    with k d h a u m show ?thesis
      unfolding keep(3) passInv_def by auto
  next
    case add
    have "map_of (recordCaches rw) r = None"
    proof (rule ccontr)
      assume "map_of (recordCaches rw) r \<noteq> None"
      with add(2) obtain rc where rc: "map_of (recordCaches rw) r = Some rc" "\<not> hasBeenAdded rc"
        by auto
      from rc(1) have "(r, rc) \<in> set (recordCaches rw)" by (rule map_of_SomeD)
      with h rc(2) show False by auto
    qed
    then have "r \<notin> keys rw" by (rule map_of_not_keys)
    with k have "r \<notin> K" by auto
    with k k' d' h' a u m add(1) show ?thesis
      unfolding add(3) passInv_def by (auto simp: keys_def)
  next
    case (upd rc)
    from upd(2) have "r \<in> keys rw" by (rule map_of_keys)
    with k upd(1) have "r \<in> K" by auto
    with k k' d' h' a u m upd(1) \<open>r \<in> keys rw\<close> show ?thesis
      unfolding upd(4) passInv_def by (auto simp: keys_def)
  qed
qed

lemma passInv_fold:
  "seenInv w records st \<Longrightarrow> passInv K st \<Longrightarrow> passInv K (fold (visit reads w) cs st)"
proof (induction cs arbitrary: st)
  case Nil
  then show ?case by simp
next
  case (Cons c cs)
  obtain rw seen tr where st: "st = (rw, seen, tr)" by (cases st)
  from Cons.prems st have "seenInv w records (visit reads w c st)" "passInv K (visit reads w c st)"
    by (simp_all add: seenInv_visit passInv_visit)
  then show ?case using Cons.IH by simp
qed

lemma passInv_iteration:
  assumes "tidy rw"
  shows "passInv (keys rw) (iteration reads w records rw)"
  unfolding iteration_def
proof (rule passInv_fold [where w = w and records = records])
  show "seenInv w records (rw\<lparr>added := [], updated := [], removed := []\<rparr>, {}, Some [TagFor records ''[]''])"
    by (rule seenInv_start)
  from assms show "passInv (keys rw) (rw\<lparr>added := [], updated := [], removed := []\<rparr>, {}, Some [TagFor records ''[]''])"
    by (simp add: passInv_def tidy_def keys_def)
qed

lemma rerun_facts:
  assumes t: "tidy rw"
  shows "object ` set (added (rerun reads w records rw)) = set (arrays w records) - keys rw"
    and "object ` set (updated (rerun reads w records rw)) \<subseteq> set (arrays w records) \<inter> keys rw"
    and "object ` set (removed (rerun reads w records rw)) = keys rw - set (arrays w records)"
    and "distinct (map object (added (rerun reads w records rw)))"
    and "distinct (map object (updated (rerun reads w records rw)))"
    and "distinct (map object (removed (rerun reads w records rw)))"
    and "keys (rerun reads w records rw) = set (arrays w records)"
    and "tidy (rerun reads w records rw)"
proof -
  obtain rw1 seen tr1 where it: "iteration reads w records rw = (rw1, seen, tr1)"
    by (cases "iteration reads w records rw")
  from iteration_seen [of reads w records rw] it have seen: "seen = set (arrays w records)"
    by simp
  from passInv_iteration [OF t, of reads w records] it
  have k: "keys rw1 = keys rw \<union> seen"
    and d: "distinct (map fst (recordCaches rw1))"
    and h: "\<forall>p \<in> set (recordCaches rw1). hasBeenAdded (snd p)"
    and a: "object ` set (added rw1) = seen - keys rw"
    and u: "object ` set (updated rw1) \<subseteq> seen \<inter> keys rw"
    and m: "removed rw1 = []"
    by (simp_all add: passInv_def)
  from seenInv_iteration [of w records reads rw] it
  have dist: "distinct (map object (added rw1 @ updated rw1))"
    by (simp add: seenInv_def)
  have obj: "map object (map Wrapped ks) = ks" for ks
    by (induction ks) simp_all
  have obj': "map (object \<circ> Wrapped) ks = ks" for ks
    by (induction ks) simp_all
  show "object ` set (added (rerun reads w records rw)) = set (arrays w records) - keys rw"
    using a seen by (simp add: rerun_eq it)
  show "object ` set (updated (rerun reads w records rw)) \<subseteq> set (arrays w records) \<inter> keys rw"
    using u seen by (simp add: rerun_eq it)
  have "set (map object (removed (rerun reads w records rw))) = {k \<in> keys rw1. k \<notin> seen}"
    using m by (simp add: rerun_eq it obj keys_def)
  with k seen show "object ` set (removed (rerun reads w records rw)) = keys rw - set (arrays w records)"
    by auto
  show "distinct (map object (added (rerun reads w records rw)))"
    using dist by (simp add: rerun_eq it)
  show "distinct (map object (updated (rerun reads w records rw)))"
    using dist by (simp add: rerun_eq it)
  show "distinct (map object (removed (rerun reads w records rw)))"
    using m d by (simp add: rerun_eq it obj')
  have "keys (rerun reads w records rw) = {k \<in> keys rw1. k \<in> seen}"
    by (auto simp: rerun_eq it keys_def)
  with k seen show "keys (rerun reads w records rw) = set (arrays w records)"
    by auto
  show "tidy (rerun reads w records rw)"
    using d h by (simp add: tidy_def rerun_eq it distinct_map_filter)
qed

lemma lifecycle_append:
  "lifecycle b (xs @ ys) = (lifecycle b xs \<and> lifecycle (trackedAfter b xs) ys)"
  by (induction b xs rule: lifecycle.induct) auto

lemma trackedAfter_append:
  "trackedAfter b (xs @ ys) = trackedAfter (trackedAfter b xs) ys"
  by (induction b xs rule: trackedAfter.induct) auto

lemma history_append: "history r (xs @ ys) = history r xs @ history r ys"
  by (simp add: history_def)

lemma filter_object_distinct:
  "distinct (map object ws) \<Longrightarrow>
   map (\<lambda>_. k) (filter (\<lambda>x. object x = r) ws) = (if r \<in> object ` set ws then [k] else [])"
proof (induction ws)
  case Nil
  then show ?case by simp
next
  case (Cons x ws)
  then show ?case by (cases "object x = r") (auto simp: image_iff)
qed

lemma history_dispatch:
  assumes "distinct (map object a)" "distinct (map object u)" "distinct (map object m)"
  shows "history r (dispatch a u m) =
     (if r \<in> object ` set a then [IsAdded] else []) @
     (if r \<in> object ` set u then [IsUpdated] else []) @
     (if r \<in> object ` set m then [IsRemoved] else [])"
  using assms by (simp add: history_def dispatch_def filter_object_distinct)

lemma addedObjects_append: "addedObjects (xs @ ys) = addedObjects xs @ addedObjects ys"
  by (induction xs rule: addedObjects.induct) simp_all

subsection \<open>A watcher along a sequence of actions\<close>

lemma valueForTag_le: "wf_world w \<Longrightarrow> valueForTag w ts \<le> REVISION w"
  unfolding valueForTag_def wf_world_def by (induction ts) auto

lemma wf_dirtyTag: "wf_world w \<Longrightarrow> wf_world (dirtyTag t w)"
  by (auto simp: wf_world_def dirtyTag_def le_Suc_eq)

lemma wf_arrays_update: "wf_world w \<Longrightarrow> wf_world (w\<lparr>arrays := f\<rparr>)"
  by (simp add: wf_world_def)

lemma wf_act: "wf_world w \<Longrightarrow> wf_world (act records a w)"
  by (cases a)
    (simp_all add: pushObject_def removeObject_def notifyPropertyChange_def wf_dirtyTag
      wf_arrays_update)

lemma cacheInv_dirtyTag:
  assumes "wf_world w" "cacheInv records w rw"
  shows "cacheInv records (dirtyTag t w) rw"
  using assms by (auto simp: cacheInv_def dirtyTag_def wf_world_def split: option.splits)

lemma cacheInv_touched:
  assumes "wf_world w" "cacheInv records w rw"
  shows "cacheInv records
           (dirtyTag (TagFor records ''[]'') (dirtyTag t (w\<lparr>arrays := f\<rparr>))) rw"
  using assms by (auto simp: cacheInv_def dirtyTag_def wf_world_def split: option.splits)

lemma cacheInv_act:
  assumes "wf_world w" "cacheInv records w rw"
  shows "cacheInv records (act records a w) rw"
proof (cases a)
  case (Push r)
  with assms show ?thesis
    by (simp add: pushObject_def notifyPropertyChange_def cacheInv_touched)
next
  case (Remove r)
  with assms show ?thesis
    by (simp add: removeObject_def notifyPropertyChange_def cacheInv_touched)
next
  case (Notify t)
  with assms show ?thesis by (simp add: cacheInv_dirtyTag)
next
  case Revalidate
  with assms show ?thesis by simp
qed

lemma valid_keys:
  assumes "cacheInv records w rw" "isValid w (recordArrayCache rw)"
  shows "keys rw = set (arrays w records)"
proof -
  from assms(2) obtain tg sn where c: "recordArrayCache rw = Some (tg, sn)"
    and v: "valueForTag w tg \<le> sn"
    by (auto simp: isValid_def validateTag_def split: option.splits)
  from assms(1) c have "TagFor records ''[]'' \<in> set tg"
    and k: "revisions w (TagFor records ''[]'') \<le> sn \<longrightarrow> keys rw = set (arrays w records)"
    by (simp_all add: cacheInv_def)
  then have "revisions w (TagFor records ''[]'') \<le> valueForTag w tg"
    by (simp add: valueForTag_ge)
  with v k show ?thesis by simp
qed

lemma cacheInv_rerun:
  assumes "wf_world w" "tidy rw"
  shows "cacheInv records w (rerun reads w records rw)"
proof -
  obtain rw1 seen tr1 where it: "iteration reads w records rw = (rw1, seen, tr1)"
    by (cases "iteration reads w records rw")
  from seenInv_iteration [of w records reads rw] it
  have "TagFor records ''[]'' \<in> set (frameTags tr1)"
    by (simp add: seenInv_def)
  moreover have "recordArrayCache (rerun reads w records rw) =
      Some (frameTags tr1, valueForTag w (frameTags tr1))"
    by (simp add: rerun_eq it)
  ultimately show ?thesis
    using assms by (simp add: cacheInv_def valueForTag_le rerun_facts(7))
qed

lemma traceInv_revalidate:
  assumes inv: "traceInv records (w, rw, log)"
  shows "traceInv records (w, fst (revalidate reads w records rw), log @ snd (revalidate reads w records rw))"
    and "set (addedObjects (log @ snd (revalidate reads w records rw))) =
         set (addedObjects log) \<union> set (arrays w records)"
proof -
  from inv have wf: "wf_world w" and t: "tidy rw" and c: "cacheInv records w rw"
    and sub: "keys rw \<subseteq> set (addedObjects log)"
    and life: "\<And>r. lifecycle False (history r log)"
    and tracked: "\<And>r. trackedAfter False (history r log) = (r \<in> keys rw)"
    by (simp_all add: traceInv_def)
  let ?rw = "rerun reads w records rw"
  let ?A = "object ` set (added ?rw)" and ?U = "object ` set (updated ?rw)"
    and ?M = "object ` set (removed ?rw)"
  note f = rerun_facts [OF t, of reads w records]
  have hist: "history r (dispatch (added ?rw) (updated ?rw) (removed ?rw)) =
     (if r \<in> ?A then [IsAdded] else []) @ (if r \<in> ?U then [IsUpdated] else []) @
     (if r \<in> ?M then [IsRemoved] else [])" for r
    using f(4,5,6) by (rule history_dispatch)
  have step: "lifecycle (r \<in> keys rw) (history r (dispatch (added ?rw) (updated ?rw) (removed ?rw))) \<and>
      trackedAfter (r \<in> keys rw) (history r (dispatch (added ?rw) (updated ?rw) (removed ?rw))) =
        (r \<in> set (arrays w records))" for r
    unfolding hist using f(1,2,3) by auto
  show "traceInv records (w, fst (revalidate reads w records rw), log @ snd (revalidate reads w records rw))"
  proof (cases "isValid w (recordArrayCache rw)")
    case True
    with inv show ?thesis by (simp add: revalidate_valid)
  next
    case False
    have "keys ?rw \<subseteq> set (addedObjects (log @ dispatch (added ?rw) (updated ?rw) (removed ?rw)))"
      using sub f(1) f(7) by (auto simp: addedObjects_append)
    moreover have "lifecycle False (history r (log @ dispatch (added ?rw) (updated ?rw) (removed ?rw))) \<and>
        trackedAfter False (history r (log @ dispatch (added ?rw) (updated ?rw) (removed ?rw))) =
          (r \<in> keys ?rw)" for r
      using life [of r] tracked [of r] step [of r]
      by (simp add: history_append lifecycle_append trackedAfter_append f(7))
    ultimately show ?thesis
      using False wf f(8) cacheInv_rerun [OF wf t, of records reads]
      by (simp add: revalidate_invalid traceInv_def)
  qed
  show "set (addedObjects (log @ snd (revalidate reads w records rw))) =
         set (addedObjects log) \<union> set (arrays w records)"
  proof (cases "isValid w (recordArrayCache rw)")
    case True
    with c have "keys rw = set (arrays w records)" by (rule valid_keys)
    with sub True show ?thesis by (auto simp: revalidate_valid)
  next
    case False
    then show ?thesis
      using sub f(1) by (auto simp: revalidate_invalid addedObjects_append)
  qed
qed

lemma step_world: "fst (step reads records a (w, rw, log)) = act records a w"
  by (cases a) (simp_all add: case_prod_beta)

lemma traceInv_step:
  assumes "traceInv records (w, rw, log)"
  shows "traceInv records (step reads records a (w, rw, log))"
proof (cases "a = Revalidate")
  case True
  with traceInv_revalidate(1) [OF assms, of reads] show ?thesis
    by (simp add: case_prod_beta)
next
  case False
  then have "step reads records a (w, rw, log) = (act records a w, rw, log)"
    by (cases a) simp_all
  with assms show ?thesis
    by (simp add: traceInv_def wf_act cacheInv_act)
qed

lemma step_added:
  assumes "traceInv records (w, rw, log)"
  shows "set (addedObjects (snd (snd (step reads records a (w, rw, log))))) =
         set (addedObjects log) \<union> (if a = Revalidate then set (arrays w records) else {})"
proof (cases "a = Revalidate")
  case True
  with traceInv_revalidate(2) [OF assms, of reads] show ?thesis
    by (simp add: case_prod_beta)
next
  case False
  then have "step reads records a (w, rw, log) = (act records a w, rw, log)"
    by (cases a) simp_all
  with False show ?thesis by simp
qed

lemma traceInv_fold:
  "traceInv records st \<Longrightarrow>
   traceInv records (fold (step reads records) as st) \<and>
   set (addedObjects (snd (snd (fold (step reads records) as st)))) =
     set (addedObjects (snd (snd st))) \<union> presentAtRevalidation records as (fst st)"
proof (induction as arbitrary: st)
  case Nil
  then show ?case by simp
next
  case (Cons a as)
  obtain w rw log where st: "st = (w, rw, log)" by (cases st)
  from Cons.prems st have i: "traceInv records (step reads records a st)"
    by (simp add: traceInv_step)
  from Cons.prems st have a: "set (addedObjects (snd (snd (step reads records a st)))) =
         set (addedObjects log) \<union> (if a = Revalidate then set (arrays w records) else {})"
    by (simp add: step_added)
  have w: "fst (step reads records a st) = act records a w"
    unfolding st by (rule step_world)
  from Cons.IH [OF i] a w st show ?case by auto
qed

lemma traceInv_start: "wf_world w \<Longrightarrow> traceInv records (w, newRecordsWatcher, [])"
  by (simp add: traceInv_def tidy_def cacheInv_def newRecordsWatcher_def keys_def history_def)

text \<open>
  C1, as the code has it. Along every sequence of pushes, removals, notifications and
  revalidations of a fresh watcher, the records reported added are exactly the records
  that were in the array at some revalidation, and the reports about each record follow
  its life in the watcher's map: it is reported added only while it is not tracked, and
  updated or removed only while it is tracked, so no update and no removal comes before
  the first added report, and between two removed reports of a record there is an added
  report of it. A record that is removed and pushed again is reported added again.
\<close>

theorem reports_follow_lifecycle:
  assumes "wf_world w"
  shows "set (addedObjects (snd (snd (run reads records as w)))) =
           presentAtRevalidation records as w \<and>
         lifecycle False (history r (snd (snd (run reads records as w))))"
proof -
  from assms have "traceInv records (w, newRecordsWatcher, [])"
    by (rule traceInv_start)
  from traceInv_fold [OF this, of reads as] show ?thesis
    by (simp add: run_def traceInv_def case_prod_beta)
qed

theorem reports_follow_lifecycle_witness:
  "wf_world noRecords \<and>
   set (addedObjects (snd (snd (run titleOf 0
     [Push 1, Push 2, Revalidate, Notify (TagFor 1 ''title''), Revalidate, Remove 2, Revalidate]
     noRecords)))) = {1, 2} \<and>
   presentAtRevalidation 0
     [Push 1, Push 2, Revalidate, Notify (TagFor 1 ''title''), Revalidate, Remove 2, Revalidate]
     noRecords = {1, 2} \<and>
   history 2 (snd (snd (run titleOf 0
     [Push 1, Push 2, Revalidate, Notify (TagFor 1 ''title''), Revalidate, Remove 2, Revalidate]
     noRecords))) = [IsAdded, IsRemoved] \<and>
   lifecycle False (history 2 (snd (snd (run titleOf 0
     [Push 1, Push 2, Revalidate, Notify (TagFor 1 ''title''), Revalidate, Remove 2, Revalidate]
     noRecords))))"
proof -
  have wf: "wf_world noRecords"
    by (simp add: wf_world_def noRecords_def initialWorld_def)
  have log: "snd (snd (run titleOf 0
     [Push 1, Push 2, Revalidate, Notify (TagFor 1 ''title''), Revalidate, Remove 2, Revalidate]
     noRecords)) =
     [RecordsAdded [Wrapped 1, Wrapped 2], RecordsUpdated [Wrapped 1], RecordsRemoved [Wrapped 2]]"
    by code_simp
  have present: "presentAtRevalidation 0
     [Push 1, Push 2, Revalidate, Notify (TagFor 1 ''title''), Revalidate, Remove 2, Revalidate]
     noRecords = {1, 2}"
    by code_simp
  show ?thesis
    using wf reports_follow_lifecycle [OF wf, of titleOf 0
        "[Push 1, Push 2, Revalidate, Notify (TagFor 1 ''title''), Revalidate, Remove 2, Revalidate]" 2]
    unfolding log present by (simp add: history_def)
qed

text \<open>
  C1, as it is stated, fails: a record pushed again after its removal was reported is
  tracked anew, so it is reported added a second time and, removed again, reported removed
  a second time.
\<close>

theorem removed_reported_twice:
  "snd (snd (run titleOf 0
     [Push 1, Revalidate, Remove 1, Revalidate, Push 1, Revalidate, Remove 1, Revalidate]
     noRecords)) =
     [RecordsAdded [Wrapped 1], RecordsRemoved [Wrapped 1],
      RecordsAdded [Wrapped 1], RecordsRemoved [Wrapped 1]] \<and>
   count_list (history 1 (snd (snd (run titleOf 0
     [Push 1, Revalidate, Remove 1, Revalidate, Push 1, Revalidate, Remove 1, Revalidate]
     noRecords)))) IsRemoved = 2 \<and>
   count_list (history 1 (snd (snd (run titleOf 0
     [Push 1, Revalidate, Remove 1, Revalidate, Push 1, Revalidate, Remove 1, Revalidate]
     noRecords)))) IsAdded = 2"
proof -
  have log: "snd (snd (run titleOf 0
     [Push 1, Revalidate, Remove 1, Revalidate, Push 1, Revalidate, Remove 1, Revalidate]
     noRecords)) =
     [RecordsAdded [Wrapped 1], RecordsRemoved [Wrapped 1],
      RecordsAdded [Wrapped 1], RecordsRemoved [Wrapped 1]]"
    by code_simp
  show ?thesis
    unfolding log by (simp add: history_def)
qed

subsection \<open>The registries\<close>

lemma regInv_backburner_on: "regInv (backburner_on s) = regInv s"
  by (simp add: regInv_def)

lemma regInv_watchRecords: "regInv s \<Longrightarrow> regInv (fst (watchRecords h w mn cb s))"
  by (auto simp: watchRecords_def regInv_def Let_def case_prod_beta distinct_update
      split: option.splits)

lemma regInv_observeModelType: "regInv s \<Longrightarrow> regInv (fst (observeModelType h w mn cb s))"
  by (auto simp: observeModelType_def regInv_def Let_def case_prod_beta distinct_update
      split: option.splits)

lemma regInv_watchEach:
  "regInv (fst acc) \<Longrightarrow> regInv (fst (watchEach h w cb mns acc))"
proof (induction mns arbitrary: acc)
  case Nil
  then show ?case by simp
next
  case (Cons mn mns)
  obtain s rels sent where acc: "acc = (s, rels, sent)" by (cases acc)
  with Cons.prems have "regInv (fst (observeModelType h w mn cb s))"
    by (simp add: regInv_observeModelType)
  then show ?case
    unfolding acc by (simp add: case_prod_beta Cons.IH)
qed

lemma regInv_watchModelTypes: "regInv s \<Longrightarrow> regInv (fst (watchModelTypes h w cb s))"
  using regInv_watchEach [of "(s, [], [])" h w cb "getModelTypes h"]
  by (simp add: watchModelTypes_def Let_def case_prod_beta regInv_def)

lemma regInv_callRelease: "regInv s \<Longrightarrow> regInv (stateOf (callRelease f s))"
  by (cases f) (auto simp: regInv_def backburner_off_def distinct_delete)

lemma regInv_callEach: "regInv s \<Longrightarrow> regInv (stateOf (callEach fs s))"
proof (induction fs arbitrary: s)
  case Nil
  then show ?case by simp
next
  case (Cons f fs)
  from Cons.prems have r: "regInv (stateOf (callRelease f s))" by (rule regInv_callRelease)
  show ?case
  proof (cases "callRelease f s")
    case (Returns s')
    with r Cons.IH [of s'] show ?thesis by simp
  next
    case (Throws e s')
    with r show ?thesis by simp
  qed
qed

lemma regInv_callTypesRelease: "regInv s \<Longrightarrow> regInv (stateOf (callTypesRelease f s))"
proof -
  assume a: "regInv s"
  obtain i rels where f: "f = ReleaseTypes i rels" by (cases f)
  from a have "regInv (stateOf (callEach rels s))" by (rule regInv_callEach)
  then show ?thesis
    unfolding f by (cases "callEach rels s") (simp_all add: regInv_def)
qed

lemma regInv_flushType: "regInv s \<Longrightarrow> regInv (flushType h w c s)"
  by (auto simp: flushType_def regInv_def case_prod_beta distinct_update split: option.splits)

lemma regInv_flushRecords: "regInv s \<Longrightarrow> regInv (flushRecords h w c s)"
  by (auto simp: flushRecords_def regInv_def case_prod_beta distinct_update split: option.splits)

lemma regInv_fold:
  assumes "\<And>c s. regInv s \<Longrightarrow> regInv (f c s)"
  shows "regInv s \<Longrightarrow> regInv (fold f cs s)"
  by (induction cs arbitrary: s) (simp_all add: assms)

lemma regInv_flushWatchers: "regInv s \<Longrightarrow> regInv (flushWatchers h w s)"
  unfolding flushWatchers_def Let_def
  by (intro regInv_fold regInv_flushRecords regInv_flushType)

lemma regInv_funpow:
  assumes "\<And>s. regInv s \<Longrightarrow> regInv (f s)"
  shows "regInv s \<Longrightarrow> regInv ((f ^^ n) s)"
  by (induction n) (simp_all add: assms)

lemma regInv_endEvent: "regInv s \<Longrightarrow> regInv (endEvent h w s)"
  unfolding endEvent_def by (intro regInv_funpow regInv_flushWatchers)

lemma regInv_releaseTypeWatchers: "regInv s \<Longrightarrow> regInv (stateOf (releaseTypeWatchers es s))"
proof (induction es arbitrary: s)
  case Nil
  then show ?case by simp
next
  case (Cons p es)
  obtain k e where p: "p = (k, e)" by (cases p)
  from Cons.prems have r: "regInv (stateOf (callRelease (typeRelease e) s))"
    by (rule regInv_callRelease)
  show ?case
  proof (cases "callRelease (typeRelease e) s")
    case (Returns s')
    with r Cons.IH [of s'] Cons.IH [of s] Cons.prems show ?thesis unfolding p by simp
  next
    case (Throws err s')
    with r Cons.IH [of s] Cons.prems show ?thesis unfolding p by simp
  qed
qed

lemma regInv_releaseRecordsWatchers:
  "regInv s \<Longrightarrow> regInv (stateOf (releaseRecordsWatchers es s))"
proof (induction es arbitrary: s)
  case Nil
  then show ?case by simp
next
  case (Cons p es)
  obtain k e where p: "p = (k, e)" by (cases p)
  from Cons.prems have r: "regInv (stateOf (callRelease (release e) s))"
    by (rule regInv_callRelease)
  show ?case
  proof (cases "callRelease (release e) s")
    case (Returns s')
    with r Cons.IH [of s'] Cons.IH [of s] Cons.prems show ?thesis unfolding p by simp
  next
    case (Throws err s')
    with r Cons.IH [of s] Cons.prems show ?thesis unfolding p by simp
  qed
qed

lemma regInv_releaseMethodsFrom:
  "regInv s \<Longrightarrow> regInv (stateOf (releaseMethodsFrom n k s))"
proof (induction n arbitrary: k s)
  case 0
  then show ?case by simp
next
  case (Suc n)
  show ?case
  proof (cases "k < length (releaseMethods s)")
    case False
    with Suc show ?thesis by simp
  next
    case True
    from Suc.prems have r: "regInv (stateOf (callTypesRelease (releaseMethods s ! k) s))"
      by (rule regInv_callTypesRelease)
    show ?thesis
    proof (cases "callTypesRelease (releaseMethods s ! k) s")
      case (Returns s')
      with r True Suc.IH [of s' "Suc k"] show ?thesis by simp
    next
      case (Throws err s')
      with r True show ?thesis by simp
    qed
  qed
qed

lemma regInv_willDestroy: "regInv s \<Longrightarrow> regInv (stateOf (willDestroy s))"
proof -
  assume a: "regInv s"
  then have 1: "regInv (stateOf (releaseTypeWatchers (typeWatchers s) s))"
    by (rule regInv_releaseTypeWatchers)
  show ?thesis
  proof (cases "releaseTypeWatchers (typeWatchers s) s")
    case (Throws e s')
    with 1 show ?thesis by (simp add: willDestroy_def)
  next
    case r1: (Returns s1)
    with 1 have "regInv s1" by simp
    then have 2: "regInv (stateOf (releaseRecordsWatchers (recordsWatchers s1) s1))"
      by (rule regInv_releaseRecordsWatchers)
    show ?thesis
    proof (cases "releaseRecordsWatchers (recordsWatchers s1) s1")
      case (Throws e s')
      with 2 r1 show ?thesis by (simp add: willDestroy_def)
    next
      case r2: (Returns s2)
      with 2 have "regInv s2" by simp
      then have "regInv (stateOf (releaseMethodsFrom (length (releaseMethods s2)) 0 s2))"
        by (rule regInv_releaseMethodsFrom)
      with r1 r2 show ?thesis by (simp add: willDestroy_def)
    qed
  qed
qed

lemma regInv_exec: "regInv (snd st) \<Longrightarrow> regInv (snd (exec h c st))"
  by (cases st; cases c)
    (simp_all add: regInv_watchRecords regInv_watchModelTypes regInv_callRelease
      regInv_callTypesRelease regInv_endEvent regInv_willDestroy)

lemma regInv_run: "regInv (snd st) \<Longrightarrow> regInv (snd (fold (exec h) cs st))"
  by (induction cs arbitrary: st) (simp_all add: regInv_exec)

lemma observeModelType_found:
  "map_of (typeWatchers s) (getRecords h mn) = Some e \<Longrightarrow>
   observeModelType h w mn cb s = (s, typeRelease e)"
  by (simp add: observeModelType_def)

lemma observeModelType_new_entry:
  assumes "map_of (typeWatchers s) (getRecords h mn) = None"
  shows "\<exists>e. map_of (typeWatchers (fst (observeModelType h w mn cb s))) (getRecords h mn) = Some e \<and>
              snd (observeModelType h w mn cb s) = typeRelease e"
  using assms
  by (simp add: observeModelType_def Let_def update_conv' case_prod_beta)

lemma filter_key_update_new:
  "map_of al k = None \<Longrightarrow> filter (\<lambda>p. fst p = k) (AList.update k v al) = [(k, v)]"
  by (induction al) (auto split: if_splits)

lemma watchRecords_one_entry:
  assumes "map_of (recordsWatchers s) (getRecords h mn) = None"
  shows "length (filter (\<lambda>p. fst p = getRecords h mn)
           (recordsWatchers (fst (watchRecords h w mn cb s)))) = 1"
  using assms
  by (simp add: watchRecords_def Let_def case_prod_beta filter_key_update_new)

lemma callRelease_records_twice:
  "recordsWatchers (stateOf (callRelease f (stateOf (callRelease f s)))) =
     recordsWatchers (stateOf (callRelease f s)) \<and>
   typeWatchers (stateOf (callRelease f (stateOf (callRelease f s)))) =
     typeWatchers (stateOf (callRelease f s))"
  by (cases f) (auto simp: backburner_off_def delete_idem)

lemma length_delete_registered:
  "map_of al k = Some v \<Longrightarrow> length al = 1 \<Longrightarrow> AList.delete k al = []"
  by (cases al) (auto split: if_splits)

lemma callRelease_registered:
  assumes sub: "subscribed s" and reg: "map_of (recordsWatchers s) c = Some e"
  shows "returned (callRelease (ReleaseRecords i c) s)"
    and "returned (callRelease (ReleaseRecords i c) (stateOf (callRelease (ReleaseRecords i c) s)))"
    and "map_of (recordsWatchers (stateOf (callRelease (ReleaseRecords i c) s))) c = None"
    and "c' \<noteq> c \<Longrightarrow> map_of (recordsWatchers (stateOf (callRelease (ReleaseRecords i c) s))) c' =
           map_of (recordsWatchers s) c'"
    and "typeWatchers (stateOf (callRelease (ReleaseRecords i c) s)) = typeWatchers s"
proof -
  from sub have pos: "endListeners s \<noteq> 0" by (simp add: subscribed_def)
  show "returned (callRelease (ReleaseRecords i c) s)"
    using pos by (simp add: backburner_off_def)
  show "map_of (recordsWatchers (stateOf (callRelease (ReleaseRecords i c) s))) c = None"
    using pos by (simp add: backburner_off_def delete_conv')
  show "c' \<noteq> c \<Longrightarrow> map_of (recordsWatchers (stateOf (callRelease (ReleaseRecords i c) s))) c' =
           map_of (recordsWatchers s) c'"
    using pos by (simp add: backburner_off_def delete_conv')
  show "typeWatchers (stateOf (callRelease (ReleaseRecords i c) s)) = typeWatchers s"
    using pos by (simp add: backburner_off_def)
  show "returned (callRelease (ReleaseRecords i c) (stateOf (callRelease (ReleaseRecords i c) s)))"
  proof (cases "length (recordsWatchers s) = 1")
    case True
    with reg have "AList.delete c (recordsWatchers s) = []"
      by (simp add: length_delete_registered)
    with True pos show ?thesis by (simp add: backburner_off_def)
  next
    case False
    with pos show ?thesis by (simp add: backburner_off_def)
  qed
qed

text \<open>
  What holds of the registries. Two calls of \<^verbatim>\<open>watchRecords\<close> that resolve to the
  same array create one RecordsWatcher: the second call changes nothing and returns the
  handle of the first, and the registry holds one entry for the array; the same holds of
  \<^verbatim>\<open>observeModelType\<close> and the type watchers. Whatever the host does, each registry
  holds an array at most once. Calling a handle a second time leaves the registries as the
  first call left them; whether the calls return depends on the subscription.
\<close>

theorem registries_hold_each_array_once:
  "(map_of (recordsWatchers s) (getRecords h mn) = None \<and> getRecords h mn' = getRecords h mn \<longrightarrow>
      watchRecords h w' mn' cb' (fst (watchRecords h w mn cb s)) = watchRecords h w mn cb s \<and>
      snd (watchRecords h w mn cb s) = ReleaseRecords (nextFn s) (getRecords h mn) \<and>
      length (filter (\<lambda>p. fst p = getRecords h mn)
        (recordsWatchers (fst (watchRecords h w mn cb s)))) = 1) \<and>
   (map_of (typeWatchers s) (getRecords h mn) = None \<and> getRecords h mn' = getRecords h mn \<longrightarrow>
      observeModelType h w' mn' cb' (fst (observeModelType h w mn cb s)) =
        observeModelType h w mn cb s) \<and>
   regInv (snd (fold (exec h) cmds (w, init))) \<and>
   recordsWatchers (stateOf (callRelease f (stateOf (callRelease f s)))) =
     recordsWatchers (stateOf (callRelease f s)) \<and>
   typeWatchers (stateOf (callRelease f (stateOf (callRelease f s)))) =
     typeWatchers (stateOf (callRelease f s)) \<and>
   (subscribed s \<and> map_of (recordsWatchers s) c = Some e \<longrightarrow>
      returned (callRelease (ReleaseRecords i c) s) \<and>
      returned (callRelease (ReleaseRecords i c) (stateOf (callRelease (ReleaseRecords i c) s))) \<and>
      map_of (recordsWatchers (stateOf (callRelease (ReleaseRecords i c) s))) c = None \<and>
      (\<forall>c'. c' \<noteq> c \<longrightarrow>
         map_of (recordsWatchers (stateOf (callRelease (ReleaseRecords i c) s))) c' =
           map_of (recordsWatchers s) c') \<and>
      typeWatchers (stateOf (callRelease (ReleaseRecords i c) s)) = typeWatchers s)"
proof (intro conjI impI allI)
  assume a: "map_of (recordsWatchers s) (getRecords h mn) = None \<and> getRecords h mn' = getRecords h mn"
  let ?e = "\<lparr>watcher = fst (revalidate (recordReads h) w (getRecords h mn) newRecordsWatcher),
                 callbacks = cb, release = ReleaseRecords (nextFn s) (getRecords h mn)\<rparr>"
  from a have l: "map_of (recordsWatchers (fst (watchRecords h w mn cb s))) (getRecords h mn') = Some ?e"
    by (simp add: watchRecords_new_entry)
  from a show r: "snd (watchRecords h w mn cb s) = ReleaseRecords (nextFn s) (getRecords h mn)"
    by (simp add: watchRecords_new_entry)
  have "watchRecords h w' mn' cb' (fst (watchRecords h w mn cb s)) =
          (fst (watchRecords h w mn cb s), release ?e)"
    using l by (rule watchRecords_found)
  with r show "watchRecords h w' mn' cb' (fst (watchRecords h w mn cb s)) = watchRecords h w mn cb s"
    by (simp add: prod_eq_iff)
  from a show "length (filter (\<lambda>p. fst p = getRecords h mn)
        (recordsWatchers (fst (watchRecords h w mn cb s)))) = 1"
    by (simp add: watchRecords_one_entry)
next
  assume a: "map_of (typeWatchers s) (getRecords h mn) = None \<and> getRecords h mn' = getRecords h mn"
  then obtain e where e: "map_of (typeWatchers (fst (observeModelType h w mn cb s))) (getRecords h mn') = Some e"
    "snd (observeModelType h w mn cb s) = typeRelease e"
    using observeModelType_new_entry [of s h mn w cb] by auto
  from e(1) have "observeModelType h w' mn' cb' (fst (observeModelType h w mn cb s)) =
      (fst (observeModelType h w mn cb s), typeRelease e)"
    by (rule observeModelType_found)
  with e(2) show "observeModelType h w' mn' cb' (fst (observeModelType h w mn cb s)) =
        observeModelType h w mn cb s"
    by (simp add: prod_eq_iff)
next
  have "regInv (snd (w, init))" by (simp add: regInv_def init_def)
  then show "regInv (snd (fold (exec h) cmds (w, init)))" by (rule regInv_run)
next
  show "recordsWatchers (stateOf (callRelease f (stateOf (callRelease f s)))) =
     recordsWatchers (stateOf (callRelease f s))"
    by (simp add: callRelease_records_twice)
  show "typeWatchers (stateOf (callRelease f (stateOf (callRelease f s)))) =
     typeWatchers (stateOf (callRelease f s))"
    by (simp add: callRelease_records_twice)
next
  assume a: "subscribed s \<and> map_of (recordsWatchers s) c = Some e"
  then have sub: "subscribed s" and reg: "map_of (recordsWatchers s) c = Some e" by simp_all
  note r = callRelease_registered [OF sub reg, where i = i]
  show "returned (callRelease (ReleaseRecords i c) s)" by (rule r(1))
  show "returned (callRelease (ReleaseRecords i c) (stateOf (callRelease (ReleaseRecords i c) s)))"
    by (rule r(2))
  show "map_of (recordsWatchers (stateOf (callRelease (ReleaseRecords i c) s))) c = None"
    by (rule r(3))
  show "typeWatchers (stateOf (callRelease (ReleaseRecords i c) s)) = typeWatchers s"
    by (rule r(5))
  fix c' assume "c' \<noteq> c"
  then show "map_of (recordsWatchers (stateOf (callRelease (ReleaseRecords i c) s))) c' =
           map_of (recordsWatchers s) c'"
    by (rule r(4))
qed

theorem registries_hold_each_array_once_example:
  "watchRecords postHooks twoPosts ''post'' 1 (fst (watchRecords postHooks twoPosts ''post'' 0 init)) =
     watchRecords postHooks twoPosts ''post'' 0 init \<and>
   snd (watchRecords postHooks twoPosts ''post'' 0 init) = ReleaseRecords 0 10 \<and>
   subscribed (fst (watchRecords postHooks twoPosts ''post'' 0 init)) \<and>
   map fst (recordsWatchers (fst (watchRecords postHooks twoPosts ''post'' 0 init))) = [10] \<and>
   returned (callRelease (ReleaseRecords 0 10) (fst (watchRecords postHooks twoPosts ''post'' 0 init))) \<and>
   returned (callRelease (ReleaseRecords 0 10)
     (stateOf (callRelease (ReleaseRecords 0 10) (fst (watchRecords postHooks twoPosts ''post'' 0 init))))) \<and>
   map_of (recordsWatchers
     (stateOf (callRelease (ReleaseRecords 0 10) (fst (watchRecords postHooks twoPosts ''post'' 0 init))))) 10 = None \<and>
   observeModelType postHooks twoPosts ''post'' 1 (fst (observeModelType postHooks twoPosts ''post'' 0 init)) =
     observeModelType postHooks twoPosts ''post'' 0 init"
proof -
  let ?s1 = "fst (watchRecords postHooks twoPosts ''post'' 0 init)"
  let ?e = "\<lparr>watcher = fst (revalidate titleOf twoPosts 10 newRecordsWatcher),
             callbacks = 0, release = ReleaseRecords 0 10\<rparr>"
  have g: "getRecords postHooks ''post'' = 10" by (simp add: postHooks_def)
  have n: "map_of (recordsWatchers init) (getRecords postHooks ''post'') = None"
    by (simp add: init_def)
  have sub: "subscribed ?s1"
    by (simp add: watchRecords_def init_def subscribed_def backburner_on_def Let_def case_prod_beta)
  have reg: "map_of (recordsWatchers ?s1) 10 = Some ?e"
    using watchRecords_new_entry(1) [OF n, of twoPosts 0]
    by (simp add: g postHooks_def init_def)
  have ks: "map fst (recordsWatchers ?s1) = [10]"
    by (simp add: watchRecords_def init_def backburner_on_def Let_def case_prod_beta g)
  show ?thesis
    using n sub reg ks
      registries_hold_each_array_once [where s = init and h = postHooks and mn = "''post''" and mn' = "''post''"
        and w = twoPosts and w' = twoPosts and cb = 0 and cb' = 1]
      registries_hold_each_array_once [where s = ?s1 and c = 10 and e = ?e and i = 0]
    by (simp add: g init_def)
qed

subsection \<open>The subscription to the run loop and the shutdown\<close>

text \<open>
  C4 fails on the code. Each registry counts only itself when it subscribes and
  unsubscribes: with a type watcher registered, \<^verbatim>\<open>watchRecords\<close> subscribes a second
  time, and releasing the records watcher removes every subscription while the type
  watcher is still registered; releasing the type watcher then throws and it stays
  registered. Likewise, with two records watchers registered, calling the handle of one
  of them twice removes the subscription while the other is still registered.
\<close>

theorem subscription_lost_with_watcher_left:
  "endListeners (fst (watchRecords postHooks twoPosts ''post'' 1
      (fst (observeModelType postHooks twoPosts ''post'' 0 init)))) = 2 \<and>
   returned (callRelease (ReleaseRecords 1 10)
      (fst (watchRecords postHooks twoPosts ''post'' 1
         (fst (observeModelType postHooks twoPosts ''post'' 0 init))))) \<and>
   watching (stateOf (callRelease (ReleaseRecords 1 10)
      (fst (watchRecords postHooks twoPosts ''post'' 1
         (fst (observeModelType postHooks twoPosts ''post'' 0 init)))))) \<and>
   \<not> subscribed (stateOf (callRelease (ReleaseRecords 1 10)
      (fst (watchRecords postHooks twoPosts ''post'' 1
         (fst (observeModelType postHooks twoPosts ''post'' 0 init)))))) \<and>
   snd (watchRecords postHooks twoPosts ''post'' 1
         (fst (observeModelType postHooks twoPosts ''post'' 0 init))) = ReleaseRecords 1 10 \<and>
   \<not> returned (callRelease (ReleaseType 0 10) (stateOf (callRelease (ReleaseRecords 1 10)
      (fst (watchRecords postHooks twoPosts ''post'' 1
         (fst (observeModelType postHooks twoPosts ''post'' 0 init))))))) \<and>
   map fst (recordsWatchers (stateOf (callRelease (ReleaseRecords 0 10)
      (stateOf (callRelease (ReleaseRecords 0 10)
         (fst (watchRecords postHooks twoPosts ''comment'' 2
            (fst (watchRecords postHooks twoPosts ''post'' 1 init))))))))) = [11] \<and>
   \<not> subscribed (stateOf (callRelease (ReleaseRecords 0 10)
      (stateOf (callRelease (ReleaseRecords 0 10)
         (fst (watchRecords postHooks twoPosts ''comment'' 2
            (fst (watchRecords postHooks twoPosts ''post'' 1 init))))))))"
  by code_simp

text \<open>
  C8 fails on the code. With a type watcher and a records watcher registered,
  \<^verbatim>\<open>willDestroy\<close> throws while it releases the records watcher (the release of the type
  watcher has removed every subscription), so the records watcher stays registered and the
  release callbacks of \<^verbatim>\<open>watchModelTypes\<close> are not called. And with two such callbacks
  pending, the first removes itself from the array that is being iterated, so the second
  is never called.
\<close>

theorem willDestroy_leaves_watchers:
  "\<not> returned (willDestroy (fst (watchRecords postHooks twoPosts ''post'' 1
      (fst (watchModelTypes postHooks twoPosts 0 init))))) \<and>
   map fst (recordsWatchers (stateOf (willDestroy (fst (watchRecords postHooks twoPosts ''post'' 1
      (fst (watchModelTypes postHooks twoPosts 0 init))))))) = [10] \<and>
   releaseMethods (stateOf (willDestroy (fst (watchRecords postHooks twoPosts ''post'' 1
      (fst (watchModelTypes postHooks twoPosts 0 init)))))) = [ReleaseTypes 1 [ReleaseType 0 10]] \<and>
   returned (willDestroy (fst (watchModelTypes noTypeHooks twoPosts 1
      (fst (watchModelTypes noTypeHooks twoPosts 0 init))))) \<and>
   releaseMethods (fst (watchModelTypes noTypeHooks twoPosts 1
      (fst (watchModelTypes noTypeHooks twoPosts 0 init)))) = [ReleaseTypes 0 [], ReleaseTypes 1 []] \<and>
   releaseMethods (stateOf (willDestroy (fst (watchModelTypes noTypeHooks twoPosts 1
      (fst (watchModelTypes noTypeHooks twoPosts 0 init)))))) = [ReleaseTypes 1 []]"
  by code_simp

subsection \<open>When a TypeWatcher is evaluated again\<close>

lemma dirtyTag_invalidates:
  assumes "sn \<le> REVISION w" "t \<in> set tg"
  shows "\<not> isValid (dirtyTag t w) (Some (tg, sn))"
proof -
  have "revisions (dirtyTag t w) t = Suc (REVISION w)"
    by (simp add: dirtyTag_def)
  with assms(2) have "Suc (REVISION w) \<le> valueForTag (dirtyTag t w) tg"
    using valueForTag_ge [of t tg "dirtyTag t w"] by simp
  with assms(1) show ?thesis
    by (simp add: isValid_def validateTag_def)
qed

lemma endEvent_after_notify:
  assumes "wf_world w"
  shows "calls (endEvent h (notifyPropertyChange (getRecords h mn) ''[]'' w)
           (fst (observeModelType h w mn cb init))) =
     [TypesUpdated cb [\<lparr>name = mn, count = length (arrays w (getRecords h mn))\<rparr>]]"
proof -
  let ?c = "getRecords h mn"
  let ?w' = "notifyPropertyChange ?c ''[]'' w"
  let ?tw = "\<lparr>hasBeenAccessed = True, cache = Some ([TagFor ?c ''[]''], valueForTag w [TagFor ?c ''[]''])\<rparr>"
  have "valueForTag w [TagFor ?c ''[]''] \<le> REVISION w"
    using assms by (rule valueForTag_le)
  then have inv: "\<not> isValid ?w' (cache ?tw)"
    using dirtyTag_invalidates [of "valueForTag w [TagFor ?c ''[]'']" w "TagFor ?c ''[]''" "[TagFor ?c ''[]'']"]
    by (simp add: notifyPropertyChange_def)
  have "snd (TypeWatcher_revalidate ?w' ?c (onChange h ?w' cb mn) ?tw []) =
        fst (onChange h ?w' cb mn (Some [TagFor ?c ''[]'']) [])"
    using TypeWatcher_later [of ?tw ?w' ?c "onChange h ?w' cb mn" "[]"] inv by simp
  also have "\<dots> = [TypesUpdated cb [\<lparr>name = mn, count = length (arrays w ?c)\<rparr>]]"
    by (simp add: onChange_def wrapModelType_def notifyPropertyChange_def dirtyTag_def)
  finally have tw: "snd (TypeWatcher_revalidate ?w' ?c (onChange h ?w' cb mn) ?tw []) =
     [TypesUpdated cb [\<lparr>name = mn, count = length (arrays w ?c)\<rparr>]]" .
  show ?thesis
    using tw
    by (simp add: observeModelType_init endEvent_def flushWatchers_def flushType_def
        case_prod_beta)
qed

text \<open>
  C6, as it is stated, fails: a forced evaluation does not need a change of the
  membership. After a record is pushed and removed again, and after a bare notification
  of \<^verbatim>\<open>[]\<close>, the array holds what it held, and the next end of a unit of work calls
  \<^verbatim>\<open>typesUpdated\<close> all the same.
\<close>

theorem typesUpdated_without_membership_change:
  "arrays (removeObject 10 3 (pushObject 10 3 twoPosts)) 10 = arrays twoPosts 10 \<and>
   calls (fst (observeModelType postHooks twoPosts ''post'' 0 init)) = [] \<and>
   calls (endEvent postHooks (removeObject 10 3 (pushObject 10 3 twoPosts))
            (fst (observeModelType postHooks twoPosts ''post'' 0 init))) =
     [TypesUpdated 0 [\<lparr>name = ''post'', count = 2\<rparr>]] \<and>
   arrays (notifyPropertyChange 10 ''[]'' twoPosts) 10 = arrays twoPosts 10 \<and>
   calls (endEvent postHooks (notifyPropertyChange 10 ''[]'' twoPosts)
            (fst (observeModelType postHooks twoPosts ''post'' 0 init))) =
     [TypesUpdated 0 [\<lparr>name = ''post'', count = 2\<rparr>]]"
  by code_simp

text \<open>
  C6, as the code has it. The first forced evaluation of a TypeWatcher only records that
  it has been accessed and leaves what \<open>onChange\<close> mutates untouched; every later forced
  evaluation applies \<open>onChange\<close> exactly once. An evaluation is forced by the tags, not
  by the membership: a valid cache is not evaluated, a cache stays valid while the tags it
  consumed keep their revisions, and dirtying one of them forces the next evaluation
  whatever the array then holds. In the adapter: observing a model type makes no call;
  after one record is pushed to its array the next end of a unit of work calls
  \<^verbatim>\<open>typesUpdated\<close> exactly once, and so it does after a bare notification of \<^verbatim>\<open>[]\<close>.
\<close>

theorem typeWatcher_onChange:
  "TypeWatcher_revalidate w records oc newTypeWatcher l =
     (\<lparr>hasBeenAccessed = True,
       cache = Some ([TagFor records ''[]''], valueForTag w [TagFor records ''[]''])\<rparr>, l) \<and>
   (\<not> hasBeenAccessed tw \<and> \<not> isValid w (cache tw) \<longrightarrow>
      snd (TypeWatcher_revalidate w records oc tw l) = l \<and>
      hasBeenAccessed (fst (TypeWatcher_revalidate w records oc tw l))) \<and>
   (hasBeenAccessed tw \<and> \<not> isValid w (cache tw) \<longrightarrow>
      snd (TypeWatcher_revalidate w records oc tw l) = fst (oc (Some [TagFor records ''[]'']) l)) \<and>
   (isValid w (cache tw) \<longrightarrow> TypeWatcher_revalidate w records oc tw l = (tw, l)) \<and>
   (isValid w (cache tw) \<and> (\<forall>t \<in> set (tagOf (cache tw)). revisions w' t = revisions w t) \<longrightarrow>
      TypeWatcher_revalidate w' records oc tw l = (tw, l)) \<and>
   (hasBeenAccessed tw \<and> cache tw = Some (tg, sn) \<and> sn \<le> REVISION w \<and> t \<in> set tg \<longrightarrow>
      snd (TypeWatcher_revalidate (dirtyTag t w) records oc tw l) =
        fst (oc (Some [TagFor records ''[]'']) l)) \<and>
   (wf_world w \<longrightarrow>
      calls (fst (observeModelType h w mn cb init)) = [] \<and>
      calls (endEvent h (pushObject (getRecords h mn) r w) (fst (observeModelType h w mn cb init))) =
        [TypesUpdated cb [\<lparr>name = mn, count = Suc (length (arrays w (getRecords h mn)))\<rparr>]] \<and>
      calls (endEvent h (notifyPropertyChange (getRecords h mn) ''[]'' w)
               (fst (observeModelType h w mn cb init))) =
        [TypesUpdated cb [\<lparr>name = mn, count = length (arrays w (getRecords h mn))\<rparr>]])"
proof (intro conjI impI)
  show "TypeWatcher_revalidate w records oc newTypeWatcher l =
     (\<lparr>hasBeenAccessed = True,
       cache = Some ([TagFor records ''[]''], valueForTag w [TagFor records ''[]''])\<rparr>, l)"
    by (simp add: TypeWatcher_first newTypeWatcher_def isValid_def)
next
  assume "\<not> hasBeenAccessed tw \<and> \<not> isValid w (cache tw)"
  then show "snd (TypeWatcher_revalidate w records oc tw l) = l"
    and "hasBeenAccessed (fst (TypeWatcher_revalidate w records oc tw l))"
    by (simp_all add: TypeWatcher_first)
next
  assume "hasBeenAccessed tw \<and> \<not> isValid w (cache tw)"
  then show "snd (TypeWatcher_revalidate w records oc tw l) = fst (oc (Some [TagFor records ''[]'']) l)"
    by (simp add: TypeWatcher_later)
next
  assume "isValid w (cache tw)"
  then show "TypeWatcher_revalidate w records oc tw l = (tw, l)"
    by (rule TypeWatcher_revalidate_valid)
next
  assume a: "isValid w (cache tw) \<and> (\<forall>t \<in> set (tagOf (cache tw)). revisions w' t = revisions w t)"
  then have "isValid w' (cache tw)"
    using isValid_cong [of "cache tw" w' w] by blast
  then show "TypeWatcher_revalidate w' records oc tw l = (tw, l)"
    by (rule TypeWatcher_revalidate_valid)
next
  assume a: "hasBeenAccessed tw \<and> cache tw = Some (tg, sn) \<and> sn \<le> REVISION w \<and> t \<in> set tg"
  then have "\<not> isValid (dirtyTag t w) (cache tw)"
    using dirtyTag_invalidates [of sn w t tg] by simp
  with a show "snd (TypeWatcher_revalidate (dirtyTag t w) records oc tw l) =
        fst (oc (Some [TagFor records ''[]'']) l)"
    by (simp add: TypeWatcher_later)
next
  assume "wf_world w"
  show "calls (fst (observeModelType h w mn cb init)) = []"
    by (simp add: observeModelType_init)
next
  assume "wf_world w"
  then show "calls (endEvent h (pushObject (getRecords h mn) r w) (fst (observeModelType h w mn cb init))) =
        [TypesUpdated cb [\<lparr>name = mn, count = Suc (length (arrays w (getRecords h mn)))\<rparr>]]"
    by (rule endEvent_after_push)
next
  assume "wf_world w"
  then show "calls (endEvent h (notifyPropertyChange (getRecords h mn) ''[]'' w)
               (fst (observeModelType h w mn cb init))) =
        [TypesUpdated cb [\<lparr>name = mn, count = length (arrays w (getRecords h mn))\<rparr>]]"
    by (rule endEvent_after_notify)
qed

theorem typeWatcher_onChange_witness:
  "wf_world (initialWorld (\<lambda>_. [1])) \<and>
   calls (fst (observeModelType postHooks (initialWorld (\<lambda>_. [1])) ''post'' 0 init)) = [] \<and>
   calls (endEvent postHooks (pushObject 10 2 (initialWorld (\<lambda>_. [1])))
      (fst (observeModelType postHooks (initialWorld (\<lambda>_. [1])) ''post'' 0 init))) =
     [TypesUpdated 0 [\<lparr>name = ''post'', count = 2\<rparr>]] \<and>
   calls (endEvent postHooks (notifyPropertyChange 10 ''[]'' (initialWorld (\<lambda>_. [1])))
      (fst (observeModelType postHooks (initialWorld (\<lambda>_. [1])) ''post'' 0 init))) =
     [TypesUpdated 0 [\<lparr>name = ''post'', count = 1\<rparr>]] \<and>
   snd (TypeWatcher_revalidate (dirtyTag (TagFor 10 ''[]'') (initialWorld (\<lambda>_. [1]))) 10
          (\<lambda>tr n. (Suc n, tr))
          \<lparr>hasBeenAccessed = True, cache = Some ([TagFor 10 ''[]''], 1)\<rparr> (0::nat)) = 1 \<and>
   TypeWatcher_revalidate (dirtyTag (TagFor 7 ''other'') (initialWorld (\<lambda>_. [1]))) 10
          (\<lambda>tr n. (Suc n, tr))
          \<lparr>hasBeenAccessed = True, cache = Some ([TagFor 10 ''[]''], 1)\<rparr> (0::nat) =
     (\<lparr>hasBeenAccessed = True, cache = Some ([TagFor 10 ''[]''], 1)\<rparr>, 0) \<and>
   snd (TypeWatcher_revalidate (initialWorld (\<lambda>_. [1])) 10 (\<lambda>tr n. (Suc n, tr))
          \<lparr>hasBeenAccessed = False, cache = None\<rparr> (0::nat)) = 0"
proof -
  let ?w = "initialWorld (\<lambda>_. [1])"
  have wf: "wf_world ?w"
    by (simp add: wf_world_def initialWorld_def)
  have g: "getRecords postHooks ''post'' = 10" by (simp add: postHooks_def)
  have valid: "isValid ?w (Some ([TagFor 10 ''[]''], 1))"
    by (simp add: isValid_def validateTag_def valueForTag_def initialWorld_def)
  have inv: "\<not> isValid ?w None"
    by (simp add: isValid_def)
  have rev: "REVISION ?w = 1" by (simp add: initialWorld_def)
  have other: "revisions (dirtyTag (TagFor 7 ''other'') ?w) (TagFor 10 ''[]'') =
      revisions ?w (TagFor 10 ''[]'')"
    by (simp add: dirtyTag_def)
  show ?thesis
    using wf valid inv rev other
      typeWatcher_onChange [where w = ?w and records = 10
        and oc = "\<lambda>tr n. (Suc n, tr)"
        and tw = "\<lparr>hasBeenAccessed = True, cache = Some ([TagFor 10 ''[]''], 1)\<rparr>" and l = "0::nat"
        and w' = "dirtyTag (TagFor 7 ''other'') ?w" and tg = "[TagFor 10 ''[]'']" and sn = 1
        and t = "TagFor 10 ''[]''"
        and h = postHooks and mn = "''post''" and cb = 0 and r = 2]
      typeWatcher_onChange [where w = ?w and records = 10
        and oc = "\<lambda>tr n. (Suc n, tr)" and tw = "\<lparr>hasBeenAccessed = False, cache = None\<rparr>" and l = "0::nat"
        and h = postHooks and mn = "''post''" and cb = 0 and r = 2]
    by (simp add: g tagOf_def initialWorld_def)
qed

subsection \<open>One handle for two callers\<close>

text \<open>
  C3 fails on the code in its last part. The two calls of \<^verbatim>\<open>watchRecords\<close> for the
  posts create one watcher and return one handle, and the registry holds each array once.
  But once the release of \<^verbatim>\<open>watchModelTypes\<close> has removed every subscription while
  the records watchers of the posts and the comments are registered, the first call of
  the shared handle returns and unregisters the posts, and the second call of it, by the
  other caller, finds one watcher left, calls \<^verbatim>\<open>backburner.off\<close> and throws.
\<close>

theorem shared_handle_throws_after_first_release:
  "snd (watchRecords postHooks twoPosts ''post'' 1 (fst (watchModelTypes postHooks twoPosts 0 init))) =
     ReleaseRecords 2 10 \<and>
   watchRecords postHooks twoPosts ''post'' 2 typesAndPostsWatched =
     (typesAndPostsWatched, ReleaseRecords 2 10) \<and>
   map fst (recordsWatchers allWatched) = [10, 11] \<and>
   endListeners allWatched = 2 \<and>
   returned (callTypesRelease (snd (watchModelTypes postHooks twoPosts 0 init)) allWatched) \<and>
   map fst (recordsWatchers typesReleased) = [10, 11] \<and>
   \<not> subscribed typesReleased \<and>
   returned (callRelease (ReleaseRecords 2 10) typesReleased) \<and>
   map fst (recordsWatchers (stateOf (callRelease (ReleaseRecords 2 10) typesReleased))) = [11] \<and>
   \<not> returned (callRelease (ReleaseRecords 2 10)
        (stateOf (callRelease (ReleaseRecords 2 10) typesReleased)))"
  by code_simp

end
